theory Spec2Isabelle
  imports Complex_Main "HOL-Library.Char_ord" "HOL-Library.List_Lexorder" "HOL-Library.AList"
begin

section \<open>Data model of bulk\_upsert.go\<close>

text \<open>
  Go strings are byte sequences compared bytewise; \<open>string\<close> with the orders of
  \<open>Char_ord\<close> and \<open>List_Lexorder\<close> is the same order.

  \<open>gval\<close> stands for the \<open>interface{}\<close> values that are bound to placeholders:
  \<open>VTime\<close> is a \<open>time.Time\<close>, \<open>VString\<close> a Go string, and so on.
\<close>

datatype gval = VNil | VBool bool | VInt int | VString string | VTime nat

text \<open>
  A \<open>*gorm.Field\<close> as the metadata provider hands it out. Only what the code reads:
  \<open>field.Struct.Name\<close>, \<open>field.DBName\<close>, \<open>field.TagSettings\<close> (read through
  \<open>TagSettingsGet\<close>), \<open>field.StructField.Relationship != nil\<close>, \<open>field.IsIgnored\<close>,
  \<open>field.IsPrimaryKey\<close>, \<open>field.StructField.HasDefaultValue\<close>, \<open>field.IsBlank\<close> and
  \<open>field.Field.Interface()\<close>.
\<close>

record field =
  struct_name :: string
  db_name :: string
  tag_settings :: "(string \<times> string) list"
  has_relationship :: bool
  is_ignored :: bool
  is_primary_key :: bool
  has_default_value :: bool
  is_blank :: bool
  field_value :: gval

definition TagSettingsGet :: "field \<Rightarrow> string \<Rightarrow> string option" where
  "TagSettingsGet f key = map_of (tag_settings f) key"

text \<open>
  The elements of \<open>objects []interface{}\<close>. A struct value carries what gorm derives from
  its type and contents: the quoted table name and the fields. The other constructors are
  values whose \<open>reflect.Kind\<close> is not \<open>Struct\<close>.
\<close>

datatype kind = KBool | KInt | KString | KMap | KSlice | KPtr | KInvalid | KStruct

datatype object =
    StructVal string "field list"
  | MapVal "(string \<times> gval) list"
  | SliceVal "gval list"
  | PtrVal
  | BoolVal bool
  | IntVal int
  | StringVal string
  | NilVal

fun Kind :: "object \<Rightarrow> kind" where
  "Kind (StructVal t fs) = KStruct"
| "Kind (MapVal m) = KMap"
| "Kind (SliceVal xs) = KSlice"
| "Kind PtrVal = KPtr"
| "Kind (BoolVal b) = KBool"
| "Kind (IntVal i) = KInt"
| "Kind (StringVal s) = KString"
| "Kind NilVal = KInvalid"

fun Fields :: "object \<Rightarrow> field list" where
  "Fields (StructVal t fs) = fs"
| "Fields v = []"

fun QuotedTableName :: "object \<Rightarrow> string" where
  "QuotedTableName (StructVal t fs) = t"
| "QuotedTableName v = []"

text \<open>
  The errors the code returns: \<open>errors.New("value must be kind of Struct")\<close>,
  \<open>errors.New("attribute sizes are inconsistent")\<close>, and whatever \<open>db.Exec(...).Error\<close>
  holds.
\<close>

datatype error = NotStruct | InconsistentSizes | ExecError string

text \<open>
  What \<open>db.Exec\<close> receives is \<open>sql_text\<close> and \<open>sql_vars\<close>; the other components
  record the pieces the text was assembled from (\<open>dbColumns\<close>, \<open>placeholders\<close>,
  \<open>duplicates\<close>), so that properties of the column list and of the conflict clause can be
  stated without parsing the text.
\<close>

record stmt =
  table_name :: string
  columns :: "string list"
  placeholders :: "string list"
  duplicates :: "string list"
  sql_text :: string
  sql_vars :: "gval list"

text \<open>
  The collaborators outside the repository: the wall clock (\<open>now n\<close> is what the
  \<open>n\<close>-th call of \<open>time.Now()\<close> returns), gorm's naming strategy, and the database
  (its answer may depend on the statements executed before).
\<close>

record env =
  now :: "nat \<Rightarrow> nat"
  ToColumnName :: "string \<Rightarrow> string"
  Exec :: "stmt list \<Rightarrow> string \<Rightarrow> gval list \<Rightarrow> error option"

text \<open>The state the code changes: the clock is read, statements are executed.\<close>

record world =
  clock_reads :: nat
  executed :: "stmt list"

definition timeNow :: "env \<Rightarrow> world \<Rightarrow> gval \<times> world" where
  "timeNow e w = (VTime (now e (clock_reads w)), w\<lparr>clock_reads := Suc (clock_reads w)\<rparr>)"

text \<open>
  A Go \<open>map[string]interface{}\<close> as an association list with distinct keys: an assignment
  \<open>attrs[k] = v\<close> is \<open>AList.update k v attrs\<close>, \<open>len\<close> is \<open>length\<close>. The order of the
  list is not observable: the code reads the map through \<open>len\<close>, \<open>sortedKeys\<close> and
  lookups only. A lookup of a missing key yields nil.
\<close>

type_synonym attrs = "(string \<times> gval) list"

definition lookup :: "attrs \<Rightarrow> string \<Rightarrow> gval" where
  "lookup m k = (case map_of m k of Some v \<Rightarrow> v | None \<Rightarrow> VNil)"

section \<open>Helpers of the package defined outside bulk\_upsert.go\<close>

text \<open>
  Modelled from the spec: \<open>containString\<close> is called by \<open>upsertObjSet\<close> and
  \<open>extractMapValue\<close> and defined in another file of the package. The spec describes the
  test as "its logical name is in the exclusion set".
\<close>

definition containString :: "string list \<Rightarrow> string \<Rightarrow> bool" where
  "containString s x = (x \<in> set s)"

text \<open>
  Modelled from the spec: \<open>sortedKeys\<close> is called by \<open>upsertObjSet\<close> and defined in
  another file of the package. It receives the attribute map only; the spec asks for a
  lexicographic order of its keys ("an explicit deterministic sort step").
\<close>

definition sortedKeys :: "attrs \<Rightarrow> string list" where
  "sortedKeys m = sort (map fst m)"

text \<open>
  Modelled from the spec: \<open>splitObjects\<close> is called by \<open>BulkUpsert\<close> and defined in
  another file of the package. Spec 4.1: "partition the input sequence into consecutive
  groups of at most chunkSize elements, preserving original order; the last group may be
  smaller", "if the records collection is empty, produce zero chunks", and "chunkSize must
  be a positive integer": for other chunk sizes and a non-empty input the spec gives no
  result, which is \<open>None\<close> here.
\<close>

function groupsOf :: "nat \<Rightarrow> 'a list \<Rightarrow> 'a list list" where
  "groupsOf n xs = (if n = 0 \<or> xs = [] then [] else take n xs # groupsOf n (drop n xs))"
  by pat_completeness auto
termination
  by (relation "measure (\<lambda>(n, xs). length xs)") auto

declare groupsOf.simps [simp del]

definition splitObjects :: "'a list \<Rightarrow> int \<Rightarrow> 'a list list option" where
  "splitObjects objects chunkSize =
     (if objects = [] then Some []
      else if chunkSize \<le> 0 then None
      else Some (groupsOf (nat chunkSize) objects))"

section \<open>extractMapValue\<close>

text \<open>The condition under which the loop body assigns to \<open>attrs\<close> (lines 124 to 127).\<close>

definition extractable :: "string list \<Rightarrow> field \<Rightarrow> bool" where
  "extractable excludeColumns f \<longleftrightarrow>
     \<not> containString excludeColumns (struct_name f) \<and>
     \<not> has_relationship f \<and>
     TagSettingsGet f ''FOREIGNKEY'' = None \<and>
     \<not> is_ignored f"

text \<open>The value assigned to \<open>attrs[field.DBName]\<close> (lines 128 to 139).\<close>

definition attrValue :: "env \<Rightarrow> field \<Rightarrow> world \<Rightarrow> gval \<times> world" where
  "attrValue e f w =
     (if struct_name f = ''CreatedAt'' \<or> struct_name f = ''UpdatedAt'' then timeNow e w
      else if has_default_value f \<and> is_blank f then
        (case TagSettingsGet f ''DEFAULT'' of
           Some val \<Rightarrow> (VString val, w)
         | None \<Rightarrow> (field_value f, w))
      else (field_value f, w))"

fun extractFields :: "env \<Rightarrow> string list \<Rightarrow> field list \<Rightarrow> attrs \<Rightarrow> world \<Rightarrow> attrs \<times> world" where
  "extractFields e excludeColumns [] attrs w = (attrs, w)"
| "extractFields e excludeColumns (f # fs) attrs w =
     (if extractable excludeColumns f then
        (case attrValue e f w of
           (v, w') \<Rightarrow> extractFields e excludeColumns fs (AList.update (db_name f) v attrs) w')
      else extractFields e excludeColumns fs attrs w)"

definition extractMapValue :: "env \<Rightarrow> object \<Rightarrow> string list \<Rightarrow> world \<Rightarrow> (error + attrs) \<times> world" where
  "extractMapValue e val excludeColumns w =
     (if Kind val \<noteq> KStruct then (Inl NotStruct, w)
      else (case extractFields e excludeColumns (Fields val) [] w of
              (attrs, w') \<Rightarrow> (Inr attrs, w')))"

section \<open>upsertObjSet\<close>

text \<open>\<open>strings.Join\<close>.\<close>

fun Join :: "string list \<Rightarrow> string \<Rightarrow> string" where
  "Join [] sep = []"
| "Join [x] sep = x"
| "Join (x # y # ys) sep = x @ sep @ Join (y # ys) sep"

text \<open>The condition under which a field gets no fragment in the conflict clause (lines 57 to 63).\<close>

definition notUpdated :: "string list \<Rightarrow> field \<Rightarrow> bool" where
  "notUpdated excludeColumns f \<longleftrightarrow>
     containString excludeColumns (struct_name f) \<or>
     has_relationship f \<or>
     TagSettingsGet f ''FOREIGNKEY'' \<noteq> None \<or>
     is_ignored f \<or>
     is_primary_key f \<or>
     TagSettingsGet f ''UNIQUE'' \<noteq> None \<or>
     TagSettingsGet f ''UNIQUE_INDEX'' \<noteq> None"

definition fragment :: "string \<Rightarrow> string" where
  "fragment c = ''`'' @ c @ ''`=VALUES(`'' @ c @ ''`)''"

fun duplicatesOf :: "string list \<Rightarrow> field list \<Rightarrow> string list" where
  "duplicatesOf excludeColumns [] = []"
| "duplicatesOf excludeColumns (f # fs) =
     (if notUpdated excludeColumns f then duplicatesOf excludeColumns fs
      else fragment (db_name f) # duplicatesOf excludeColumns fs)"

text \<open>
  The loop over the objects of the chunk (lines 70 to 95): it returns at the first object
  that is not a struct or whose attribute map has another size; otherwise it appends one
  placeholder group and the object's values, in the order of the object's own sorted keys.
\<close>

fun appendObjects :: "env \<Rightarrow> string list \<Rightarrow> nat \<Rightarrow> object list \<Rightarrow> string list \<Rightarrow> gval list \<Rightarrow> world
    \<Rightarrow> (error + string list \<times> gval list) \<times> world" where
  "appendObjects e excludeColumns attrSize [] phs vars w = (Inr (phs, vars), w)"
| "appendObjects e excludeColumns attrSize (obj # objs) phs vars w =
     (case extractMapValue e obj excludeColumns w of
        (Inl err, w') \<Rightarrow> (Inl err, w')
      | (Inr objAttrs, w') \<Rightarrow>
          if length objAttrs \<noteq> attrSize then (Inl InconsistentSizes, w')
          else
            let keys = sortedKeys objAttrs;
                scopeVars = map (lookup objAttrs) keys;
                variables = map (\<lambda>key. ''?'') keys;
                valueQuery = ''('' @ Join variables '', '' @ '')''
            in appendObjects e excludeColumns attrSize objs (phs @ [valueQuery]) (vars @ scopeVars) w')"

text \<open>
  The statement text (lines 97 to 107): \<open>fmt.Sprintf\<close> of the template with the quoted
  table name, the joined columns and the joined placeholder groups, and the conflict clause
  when \<open>duplicates\<close> is not empty.
\<close>

definition sqlText :: "string \<Rightarrow> string list \<Rightarrow> string list \<Rightarrow> string list \<Rightarrow> string" where
  "sqlText tbl cols phs dups =
     ''INSERT INTO '' @ tbl @ '' (`'' @ Join cols ''`, `'' @ ''`) VALUES '' @ Join phs '', '' @
     (if length dups > 0 then '' ON DUPLICATE KEY UPDATE '' @ Join dups '', '' else [])"

text \<open>
  \<open>upsertObjSet\<close> (lines 29 to 110). \<open>scope.AddToVars\<close> appends the value to the
  variables of the scope, \<open>mainScope.Raw\<close> stores the text, and \<open>db.Exec\<close> gets the text and
  the variables; its \<open>Error\<close> is the result. The state records the executed statement
  whether the database accepts it or not.
\<close>

definition upsertObjSet :: "env \<Rightarrow> object list \<Rightarrow> string list \<Rightarrow> world \<Rightarrow> error option \<times> world" where
  "upsertObjSet e objects excludeColumns w =
     (case objects of
        [] \<Rightarrow> (None, w)
      | first # rest \<Rightarrow>
          (case extractMapValue e first excludeColumns w of
             (Inl err, w1) \<Rightarrow> (Some err, w1)
           | (Inr firstAttrs, w1) \<Rightarrow>
               let attrSize = length firstAttrs;
                   dbColumns = map (ToColumnName e) (sortedKeys firstAttrs);
                   dups = duplicatesOf excludeColumns (Fields first)
               in (case appendObjects e excludeColumns attrSize objects [] [] w1 of
                     (Inl err, w2) \<Rightarrow> (Some err, w2)
                   | (Inr (phs, vars), w2) \<Rightarrow>
                       let st = \<lparr>table_name = QuotedTableName first, columns = dbColumns,
                                 placeholders = phs, duplicates = dups,
                                 sql_text = sqlText (QuotedTableName first) dbColumns phs dups,
                                 sql_vars = vars\<rparr>
                       in (Exec e (executed w2) (sql_text st) (sql_vars st),
                           w2\<lparr>executed := executed w2 @ [st]\<rparr>))))"

section \<open>BulkUpsert\<close>

text \<open>
  \<open>BulkUpsert\<close> (lines 19 to 27): the loop over the chunks returns at the first error. The
  result is \<open>None\<close> where the chunker has no specified result.
\<close>

fun upsertChunks :: "env \<Rightarrow> object list list \<Rightarrow> string list \<Rightarrow> world \<Rightarrow> error option \<times> world" where
  "upsertChunks e [] excludeColumns w = (None, w)"
| "upsertChunks e (objSet # rest) excludeColumns w =
     (case upsertObjSet e objSet excludeColumns w of
        (Some err, w') \<Rightarrow> (Some err, w')
      | (None, w') \<Rightarrow> upsertChunks e rest excludeColumns w')"

definition BulkUpsert :: "env \<Rightarrow> object list \<Rightarrow> int \<Rightarrow> string list \<Rightarrow> world
    \<Rightarrow> (error option \<times> world) option" where
  "BulkUpsert e objects chunkSize excludeColumns w =
     map_option (\<lambda>chunks. upsertChunks e chunks excludeColumns w) (splitObjects objects chunkSize)"

section \<open>Notions used in the statements\<close>

text \<open>
  The size of the attribute map of a record, \<open>None\<close> for a value that
  \<open>extractMapValue\<close> rejects. The size does not depend on the state in which the map is
  extracted (lemma \<open>attrCount_extract\<close> below), so it is read off an extraction in a fixed
  state.
\<close>

definition attrCount :: "env \<Rightarrow> string list \<Rightarrow> object \<Rightarrow> nat option" where
  "attrCount e excludeColumns obj =
     (case extractMapValue e obj excludeColumns \<lparr>clock_reads = 0, executed = []\<rparr> of
        (Inl err, w) \<Rightarrow> None
      | (Inr attrs, w) \<Rightarrow> Some (length attrs))"

text \<open>\<open>attrsOf e excl obj a\<close>: \<open>a\<close> is an attribute map that \<open>extractMapValue\<close> returns for \<open>obj\<close>
  in some state (the states differ in the clock only).\<close>

definition attrsOf :: "env \<Rightarrow> string list \<Rightarrow> object \<Rightarrow> attrs \<Rightarrow> bool" where
  "attrsOf e excludeColumns obj a \<longleftrightarrow>
     (\<exists>w w'. extractMapValue e obj excludeColumns w = (Inr a, w'))"

text \<open>
  The keys of the attribute map, in the order of their first assignment, computed without
  the values (lemma \<open>extractFields_keys\<close> below).
\<close>

fun attrKeys :: "string list \<Rightarrow> field list \<Rightarrow> string list \<Rightarrow> string list" where
  "attrKeys excludeColumns [] ks = ks"
| "attrKeys excludeColumns (f # fs) ks =
     (if extractable excludeColumns f
      then attrKeys excludeColumns fs (if db_name f \<in> set ks then ks else ks @ [db_name f])
      else attrKeys excludeColumns fs ks)"

text \<open>
  Two struct values of the same Go type: gorm derives the same table and the same field
  descriptors from them, up to what depends on the contents (\<open>IsBlank\<close> and the value).
\<close>

definition descriptor :: "field \<Rightarrow> field" where
  "descriptor f = f\<lparr>is_blank := False, field_value := VNil\<rparr>"

definition sameType :: "object \<Rightarrow> object \<Rightarrow> bool" where
  "sameType a b \<longleftrightarrow>
     Kind a = KStruct \<and> Kind b = KStruct \<and>
     QuotedTableName a = QuotedTableName b \<and>
     map descriptor (Fields a) = map descriptor (Fields b)"

text \<open>
  The column list as spec 4.2 words it: a field is a writable column candidate "unless ANY
  of: its logical name is in the exclusion set, it participates in a relationship, it
  carries a foreign-key marker, it is flagged ignored, it is the primary key, or it carries
  a unique / unique-index marker"; the candidates are ordered "lexicographically by logical
  field name".
\<close>

definition specCandidate :: "string list \<Rightarrow> field \<Rightarrow> bool" where
  "specCandidate excludeColumns f \<longleftrightarrow>
     \<not> (struct_name f \<in> set excludeColumns \<or>
        has_relationship f \<or>
        TagSettingsGet f ''FOREIGNKEY'' \<noteq> None \<or>
        is_ignored f \<or>
        is_primary_key f \<or>
        TagSettingsGet f ''UNIQUE'' \<noteq> None \<or>
        TagSettingsGet f ''UNIQUE_INDEX'' \<noteq> None)"

definition specOrderedColumns :: "env \<Rightarrow> string list \<Rightarrow> field list \<Rightarrow> string list" where
  "specOrderedColumns e excludeColumns fs =
     map (\<lambda>f. ToColumnName e (db_name f))
       (sort_key struct_name (filter (specCandidate excludeColumns) fs))"

section \<open>Example records\<close>

text \<open>A database that accepts everything, a clock that starts at 1000, names kept as they are.\<close>

definition env0 :: env where
  "env0 = \<lparr>now = (\<lambda>n. 1000 + n), ToColumnName = (\<lambda>s. s), Exec = (\<lambda>history sql vars. None)\<rparr>"

text \<open>A database that rejects every statement.\<close>

definition envFail :: env where
  "envFail = \<lparr>now = (\<lambda>n. 1000 + n), ToColumnName = (\<lambda>s. s),
     Exec = (\<lambda>history sql vars. Some (ExecError ''Duplicate entry''))\<rparr>"

definition w0 :: world where
  "w0 = \<lparr>clock_reads = 0, executed = []\<rparr>"

text \<open>A plain column field.\<close>

definition mkField :: "string \<Rightarrow> string \<Rightarrow> gval \<Rightarrow> field" where
  "mkField n c v =
     \<lparr>struct_name = n, db_name = c, tag_settings = [], has_relationship = False,
      is_ignored = False, is_primary_key = False, has_default_value = False,
      is_blank = False, field_value = v\<rparr>"

text \<open>\<open>type link struct { URL string; Uid int }\<close>\<close>

definition exLink :: object where
  "exLink = StructVal ''`links`''
     [mkField ''URL'' ''url'' (VString ''http://a''), mkField ''Uid'' ''uid'' (VInt 7)]"

text \<open>
  \<open>type user struct { ID int; Email string `gorm:"unique"`; Name string;
  Role string `gorm:"default:guest"`; CreatedAt time.Time }\<close>, with the name and the role as
  parameters; an empty role is blank.
\<close>

definition exID :: field where
  "exID = (mkField ''ID'' ''id'' (VInt 0))\<lparr>is_primary_key := True, is_blank := True\<rparr>"

definition exEmail :: field where
  "exEmail = (mkField ''Email'' ''email'' (VString ''a@b.c''))\<lparr>tag_settings := [(''UNIQUE'', ''UNIQUE'')]\<rparr>"

definition exRole :: "string \<Rightarrow> field" where
  "exRole r = (mkField ''Role'' ''role'' (VString r))
     \<lparr>tag_settings := [(''DEFAULT'', ''guest'')], has_default_value := True, is_blank := (r = [])\<rparr>"

definition exCreatedAt :: field where
  "exCreatedAt = mkField ''CreatedAt'' ''created_at'' (VTime 5)"

definition exUser :: "string \<Rightarrow> string \<Rightarrow> object" where
  "exUser n r = StructVal ''`users`''
     [exID, exEmail, mkField ''Name'' ''name'' (VString n), exRole r, exCreatedAt]"

text \<open>Two further struct types with one column each, and one with two.\<close>

definition exTag :: object where
  "exTag = StructVal ''`tags`'' [mkField ''Label'' ''label'' (VString ''x'')]"

definition exNote :: object where
  "exNote = StructVal ''`notes`'' [mkField ''Body'' ''body'' (VString ''y'')]"

section \<open>The chunker\<close>

lemma groupsOf_Nil: "groupsOf n [] = []"
  by (subst groupsOf.simps) simp

lemma groupsOf_step:
  "0 < n \<Longrightarrow> xs \<noteq> [] \<Longrightarrow> groupsOf n xs = take n xs # groupsOf n (drop n xs)"
  by (subst groupsOf.simps) simp

lemma concat_groupsOf: "0 < n \<Longrightarrow> concat (groupsOf n xs) = xs"
proof (induction n xs rule: groupsOf.induct)
  case (1 n xs)
  show ?case
  proof (cases "xs = []")
    case True
    then show ?thesis by (simp add: groupsOf_Nil)
  next
    case False
    with "1.prems" "1.IH" have "concat (groupsOf n (drop n xs)) = drop n xs" by simp
    with False "1.prems" show ?thesis by (simp add: groupsOf_step)
  qed
qed

lemma groupsOf_bounded: "0 < n \<Longrightarrow> c \<in> set (groupsOf n xs) \<Longrightarrow> length c \<le> n \<and> c \<noteq> []"
proof (induction n xs rule: groupsOf.induct)
  case (1 n xs)
  show ?case
  proof (cases "xs = []")
    case True
    with "1.prems" show ?thesis by (simp add: groupsOf_Nil)
  next
    case False
    with "1.prems" have "c = take n xs \<or> c \<in> set (groupsOf n (drop n xs))"
      by (simp add: groupsOf_step)
    then show ?thesis
    proof
      assume "c = take n xs"
      with False "1.prems" show ?thesis by simp
    next
      assume "c \<in> set (groupsOf n (drop n xs))"
      with False "1.prems" "1.IH" show ?thesis by simp
    qed
  qed
qed

lemma groupsOf_subset: "0 < n \<Longrightarrow> c \<in> set (groupsOf n xs) \<Longrightarrow> set c \<subseteq> set xs"
proof (induction n xs rule: groupsOf.induct)
  case (1 n xs)
  show ?case
  proof (cases "xs = []")
    case True
    with "1.prems" show ?thesis by (simp add: groupsOf_Nil)
  next
    case False
    with "1.prems" have "c = take n xs \<or> c \<in> set (groupsOf n (drop n xs))"
      by (simp add: groupsOf_step)
    then show ?thesis
    proof
      assume "c = take n xs"
      then show ?thesis using set_take_subset [of n xs] by simp
    next
      assume "c \<in> set (groupsOf n (drop n xs))"
      with False "1.prems" "1.IH" have "set c \<subseteq> set (drop n xs)" by simp
      then show ?thesis using set_drop_subset [of n xs] by (rule subset_trans)
    qed
  qed
qed

lemma ceil_small: "0 < m \<Longrightarrow> m \<le> n \<Longrightarrow> (m + n - 1) div n = (1::nat)"
  by (rule div_nat_eqI) simp_all

lemma ceil_step:
  assumes n: "0 < n" and m: "n < m"
  shows "(m + n - 1) div n = Suc ((m - n + n - 1) div n)"
proof -
  have e1: "m + n - 1 = (m - 1) + n" using n m by arith
  have e2: "m - n + n - 1 = m - 1" using m by arith
  have "((m - 1) + n) div n = Suc ((m - 1) div n)"
    using n by (simp only: div_add_self2 [of n "m - 1"] Suc_eq_plus1 neq0_conv)
  then show ?thesis by (simp only: e1 e2)
qed

lemma length_groupsOf: "0 < n \<Longrightarrow> length (groupsOf n xs) = (length xs + n - 1) div n"
proof (induction n xs rule: groupsOf.induct)
  case (1 n xs)
  show ?case
  proof (cases "xs = []")
    case True
    with "1.prems" show ?thesis by (simp add: groupsOf_Nil)
  next
    case False
    from "1.prems" False
    have ih: "length (groupsOf n (drop n xs)) = (length (drop n xs) + n - 1) div n"
      using "1.IH" by simp
    have step: "length (groupsOf n xs) = Suc (length (groupsOf n (drop n xs)))"
      using "1.prems" False by (simp add: groupsOf_step)
    show ?thesis
    proof (cases "length xs \<le> n")
      case True
      with False "1.prems" have "(length xs + n - 1) div n = 1"
        by (intro ceil_small) simp_all
      moreover from True have "groupsOf n (drop n xs) = []" by (simp add: groupsOf_Nil)
      ultimately show ?thesis using step by simp
    next
      case gt: False
      then have "(length xs + n - 1) div n = Suc ((length xs - n + n - 1) div n)"
        using "1.prems" by (intro ceil_step) simp_all
      with step ih show ?thesis by simp
    qed
  qed
qed

lemma ceil_int:
  fixes a b :: int
  assumes b: "0 < b"
  shows "- (- a div b) = (a + b - 1) div b"
proof (cases "a mod b = 0")
  case True
  have "a + b - 1 = b * (a div b) + (b - 1)"
    using True mult_div_mod_eq [of b a] by simp
  then have "(a + b - 1) div b = a div b"
    using b by (intro int_div_pos_eq [where r = "b - 1"]) simp_all
  moreover have "- a div b = - (a div b)"
    using True b by (simp add: zdiv_zminus1_eq_if)
  ultimately show ?thesis by simp
next
  case False
  have r: "0 \<le> a mod b" "a mod b < b" using b by simp_all
  with False have r1: "0 \<le> a mod b - 1" by simp
  have "a + b - 1 = b * (a div b + 1) + (a mod b - 1)"
    using mult_div_mod_eq [of b a] by (simp add: algebra_simps)
  then have "(a + b - 1) div b = a div b + 1"
    using r r1 by (intro int_div_pos_eq [where r = "a mod b - 1"]) simp_all
  moreover have "- a div b = - (a div b) - 1"
    using False b by (simp add: zdiv_zminus1_eq_if)
  ultimately show ?thesis by simp
qed

lemma ceil_div: "0 < n \<Longrightarrow> int ((m + n - 1) div n) = \<lceil>real m / real n\<rceil>"
proof -
  assume n: "0 < n"
  have "\<lceil>real m / real n\<rceil> = \<lceil>of_int (int m) / (of_int (int n) :: real)\<rceil>" by simp
  also have "\<dots> = - (- int m div int n)" by (rule ceiling_divide_eq_div)
  also have "\<dots> = (int m + int n - 1) div int n"
    using n by (intro ceil_int) simp
  also have "\<dots> = int ((m + n - 1) div n)"
    using n by (simp add: zdiv_int)
  finally show ?thesis by simp
qed

text \<open>
  Claim C7. For a non-empty record sequence and a positive chunk size, the chunker
  returns \<open>ceil(recordCount / chunkSize)\<close> chunks, each of at most \<open>chunkSize\<close> records,
  and the concatenation of the chunks is the original sequence.
\<close>

theorem splitObjects_chunks:
  assumes "objects \<noteq> []" and "0 < chunkSize"
  shows "\<exists>chunks. splitObjects objects chunkSize = Some chunks \<and>
           int (length chunks) = \<lceil>real (length objects) / real_of_int chunkSize\<rceil> \<and>
           (\<forall>c \<in> set chunks. length c \<le> nat chunkSize) \<and>
           concat chunks = objects"
proof -
  let ?n = "nat chunkSize"
  from assms have n: "0 < ?n" by simp
  from assms have s: "splitObjects objects chunkSize = Some (groupsOf ?n objects)"
    by (simp add: splitObjects_def)
  have "int (length (groupsOf ?n objects)) = \<lceil>real (length objects) / real ?n\<rceil>"
    using n by (simp only: length_groupsOf ceil_div)
  moreover from assms have "real ?n = real_of_int chunkSize" by simp
  ultimately have c: "int (length (groupsOf ?n objects)) = \<lceil>real (length objects) / real_of_int chunkSize\<rceil>"
    by simp
  have b: "\<forall>c \<in> set (groupsOf ?n objects). length c \<le> ?n"
    using groupsOf_bounded [OF n] by blast
  from s c b concat_groupsOf [OF n] show ?thesis by simp
qed

theorem splitObjects_chunks_witness:
  "splitObjects [1::nat, 2, 3, 4, 5] 3 = Some [[1, 2, 3], [4, 5]] \<and>
   (\<exists>chunks. splitObjects [1::nat, 2, 3, 4, 5] 3 = Some chunks \<and>
      int (length chunks) = \<lceil>real (length [1::nat, 2, 3, 4, 5]) / real_of_int 3\<rceil> \<and>
      (\<forall>c \<in> set chunks. length c \<le> nat 3) \<and> concat chunks = [1, 2, 3, 4, 5])"
proof
  show "splitObjects [1::nat, 2, 3, 4, 5] 3 = Some [[1, 2, 3], [4, 5]]"
    by (simp add: splitObjects_def groupsOf.simps)
  have "[1::nat, 2, 3, 4, 5] \<noteq> []" and "(0::int) < 3" by simp_all
  then show "\<exists>chunks. splitObjects [1::nat, 2, 3, 4, 5] 3 = Some chunks \<and>
      int (length chunks) = \<lceil>real (length [1::nat, 2, 3, 4, 5]) / real_of_int 3\<rceil> \<and>
      (\<forall>c \<in> set chunks. length c \<le> nat 3) \<and> concat chunks = [1, 2, 3, 4, 5]"
    by (rule splitObjects_chunks)
qed

section \<open>State changes of the extraction and of the loop over a chunk\<close>

lemma attrValue_executed: "executed (snd (attrValue e f w)) = executed w"
  by (simp add: attrValue_def timeNow_def split: option.splits)

lemma extractFields_executed: "executed (snd (extractFields e excl fs a w)) = executed w"
proof (induction fs arbitrary: a w)
  case Nil
  show ?case by simp
next
  case (Cons f fs)
  show ?case
  proof (cases "extractable excl f")
    case False
    with Cons show ?thesis by simp
  next
    case True
    obtain v w' where av: "attrValue e f w = (v, w')" by (cases "attrValue e f w")
    then have "executed w' = executed w" using attrValue_executed [of e f w] by simp
    with True av Cons show ?thesis by simp
  qed
qed

lemma extractMapValue_executed: "executed (snd (extractMapValue e v excl w)) = executed w"
proof (cases "Kind v = KStruct")
  case False
  then show ?thesis by (simp add: extractMapValue_def)
next
  case True
  obtain a w' where ef: "extractFields e excl (Fields v) [] w = (a, w')"
    by (cases "extractFields e excl (Fields v) [] w")
  with extractFields_executed [of e excl "Fields v" "[]" w] have "executed w' = executed w" by simp
  with True ef show ?thesis by (simp add: extractMapValue_def)
qed

lemma extractMapValue_Inl:
  "extractMapValue e v excl w = (Inl err, w') \<Longrightarrow> err = NotStruct \<and> Kind v \<noteq> KStruct \<and> w' = w"
  by (auto simp: extractMapValue_def split: if_splits prod.splits)

lemma extractMapValue_nonstruct:
  "Kind v \<noteq> KStruct \<Longrightarrow> extractMapValue e v excl w = (Inl NotStruct, w)"
  by (simp add: extractMapValue_def)

lemma appendObjects_executed:
  "executed (snd (appendObjects e excl n objs phs vars w)) = executed w"
proof (induction objs arbitrary: phs vars w)
  case Nil
  show ?case by simp
next
  case (Cons obj objs)
  obtain r w' where ex: "extractMapValue e obj excl w = (r, w')"
    by (cases "extractMapValue e obj excl w")
  then have w': "executed w' = executed w" using extractMapValue_executed [of e obj excl w] by simp
  show ?case
  proof (cases r)
    case (Inl err)
    with ex w' show ?thesis by simp
  next
    case (Inr a)
    with ex w' Cons show ?thesis by (simp add: Let_def)
  qed
qed

lemma appendObjects_nonstruct:
  "v \<in> set objs \<Longrightarrow> Kind v \<noteq> KStruct \<Longrightarrow>
   \<exists>err. fst (appendObjects e excl n objs phs vars w) = Inl err \<and>
         (err = NotStruct \<or> err = InconsistentSizes)"
proof (induction objs arbitrary: phs vars w)
  case Nil
  then show ?case by simp
next
  case (Cons obj objs)
  obtain r w' where ex: "extractMapValue e obj excl w = (r, w')"
    by (cases "extractMapValue e obj excl w")
  show ?case
  proof (cases r)
    case (Inl err)
    with ex have "err = NotStruct" using extractMapValue_Inl by blast
    with Inl ex show ?thesis by simp
  next
    case (Inr a)
    with ex have "Kind obj = KStruct" by (auto simp: extractMapValue_def split: if_splits)
    with Cons.prems have "v \<in> set objs" by auto
    with Cons have "\<exists>err. fst (appendObjects e excl n objs (phs @ [''('' @ Join (map (\<lambda>key. ''?'') (sortedKeys a)) '', '' @ '')'']) (vars @ map (lookup a) (sortedKeys a)) w') = Inl err \<and>
         (err = NotStruct \<or> err = InconsistentSizes)" by blast
    with Inr ex show ?thesis by (simp add: Let_def)
  qed
qed

text \<open>
  Claim C8. A value whose kind is not \<open>Struct\<close> is rejected by \<open>extractMapValue\<close> with the
  error "value must be kind of Struct" and without any change of the state (no field is
  extracted, the clock is not read). A chunk that contains such a value makes
  \<open>upsertObjSet\<close> return an error without executing a statement; the error is the shape
  error when the value is the first of the chunk.
\<close>

theorem nonstruct_rejected:
  assumes "Kind v \<noteq> KStruct"
  shows "extractMapValue e v excl w = (Inl NotStruct, w) \<and>
         (v \<in> set objects \<longrightarrow>
            (\<exists>err. fst (upsertObjSet e objects excl w) = Some err \<and>
                   (err = NotStruct \<or> err = InconsistentSizes)) \<and>
            executed (snd (upsertObjSet e objects excl w)) = executed w) \<and>
         (objects \<noteq> [] \<and> hd objects = v \<longrightarrow> upsertObjSet e objects excl w = (Some NotStruct, w))"
proof (intro conjI impI)
  show ex: "extractMapValue e v excl w = (Inl NotStruct, w)"
    using assms by (rule extractMapValue_nonstruct)
  show "upsertObjSet e objects excl w = (Some NotStruct, w)" if "objects \<noteq> [] \<and> hd objects = v"
  proof -
    from that obtain rest where "objects = v # rest" by (cases objects) auto
    with ex show ?thesis by (simp add: upsertObjSet_def)
  qed
next
  assume mem: "v \<in> set objects"
  then obtain first rest where obj: "objects = first # rest" by (cases objects) auto
  obtain r w1 where ex1: "extractMapValue e first excl w = (r, w1)"
    by (cases "extractMapValue e first excl w")
  then have w1: "executed w1 = executed w" using extractMapValue_executed [of e first excl w] by simp
  have "(\<exists>err. fst (upsertObjSet e objects excl w) = Some err \<and>
                   (err = NotStruct \<or> err = InconsistentSizes)) \<and>
            executed (snd (upsertObjSet e objects excl w)) = executed w"
  proof (cases r)
    case (Inl err)
    with ex1 have "err = NotStruct" using extractMapValue_Inl by blast
    with Inl ex1 obj w1 show ?thesis by (simp add: upsertObjSet_def)
  next
    case (Inr firstAttrs)
    obtain r2 w2 where ap: "appendObjects e excl (length firstAttrs) objects [] [] w1 = (r2, w2)"
      by (cases "appendObjects e excl (length firstAttrs) objects [] [] w1")
    from appendObjects_nonstruct [OF mem assms, of e excl "length firstAttrs" "[]" "[]" w1] ap
    obtain err where r2: "r2 = Inl err" and err: "err = NotStruct \<or> err = InconsistentSizes"
      by auto
    from ap appendObjects_executed [of e excl "length firstAttrs" objects "[]" "[]" w1]
    have "executed w2 = executed w1" by simp
    with w1 r2 err ap Inr ex1 obj show ?thesis by (auto simp add: upsertObjSet_def Let_def)
  qed
  then show "\<exists>err. fst (upsertObjSet e objects excl w) = Some err \<and>
                   (err = NotStruct \<or> err = InconsistentSizes)"
    and "executed (snd (upsertObjSet e objects excl w)) = executed w" by blast+
qed

theorem nonstruct_rejected_witness:
  "Kind (MapVal [(''name'', VString ''ann'')]) \<noteq> KStruct \<and>
   extractMapValue env0 (MapVal [(''name'', VString ''ann'')]) [] w0 = (Inl NotStruct, w0) \<and>
   fst (upsertObjSet env0 [exTag, MapVal [(''name'', VString ''ann'')]] [] w0) = Some NotStruct \<and>
   executed (snd (upsertObjSet env0 [exTag, MapVal [(''name'', VString ''ann'')]] [] w0)) = []"
proof -
  have k: "Kind (MapVal [(''name'', VString ''ann'')]) \<noteq> KStruct" by simp
  have m: "MapVal [(''name'', VString ''ann'')] \<in> set [exTag, MapVal [(''name'', VString ''ann'')]]"
    by simp
  have r: "fst (upsertObjSet env0 [exTag, MapVal [(''name'', VString ''ann'')]] [] w0) = Some NotStruct"
    by code_simp
  from nonstruct_rejected [OF k, of env0 "[]" w0 "[exTag, MapVal [(''name'', VString ''ann'')]]"] k m r
  show ?thesis by (simp add: w0_def)
qed

section \<open>The keys of the attribute map\<close>

lemma attrValue_clock: "clock_reads w \<le> clock_reads (snd (attrValue e f w))"
  by (simp add: attrValue_def timeNow_def split: option.splits)

lemma extractFields_keys:
  "map fst (fst (extractFields e excl fs a w)) = attrKeys excl fs (map fst a)"
proof (induction fs arbitrary: a w)
  case Nil
  show ?case by simp
next
  case (Cons f fs)
  show ?case
  proof (cases "extractable excl f")
    case False
    with Cons show ?thesis by simp
  next
    case True
    obtain v w' where av: "attrValue e f w = (v, w')" by (cases "attrValue e f w")
    have "map fst (AList.update (db_name f) v a) =
            (if db_name f \<in> set (map fst a) then map fst a else map fst a @ [db_name f])"
      by (rule update_keys)
    with True av Cons [of "AList.update (db_name f) v a" w'] show ?thesis by simp
  qed
qed

lemma attrKeys_set:
  "set (attrKeys excl fs ks) = set ks \<union> db_name ` {f \<in> set fs. extractable excl f}"
  by (induction fs arbitrary: ks) auto

lemma attrKeys_distinct: "distinct ks \<Longrightarrow> distinct (attrKeys excl fs ks)"
  by (induction fs arbitrary: ks) auto

lemma extractMapValue_struct:
  assumes "Kind obj = KStruct"
  shows "\<exists>a w'. extractMapValue e obj excl w = (Inr a, w') \<and>
           map fst a = attrKeys excl (Fields obj) []"
proof -
  obtain a w' where ef: "extractFields e excl (Fields obj) [] w = (a, w')"
    by (cases "extractFields e excl (Fields obj) [] w")
  with extractFields_keys [of e excl "Fields obj" "[]" w]
  have "map fst a = attrKeys excl (Fields obj) []" by simp
  with assms ef show ?thesis by (simp add: extractMapValue_def)
qed

lemma extractMapValue_Inr:
  assumes "extractMapValue e obj excl w = (Inr a, w')"
  shows "Kind obj = KStruct \<and> map fst a = attrKeys excl (Fields obj) []"
proof -
  from assms have k: "Kind obj = KStruct"
    by (auto simp: extractMapValue_def split: if_splits)
  from extractMapValue_struct [OF k, of e excl w] assms show ?thesis using k by auto
qed

lemma attrsOf_keys: "attrsOf e excl obj a \<Longrightarrow> Kind obj = KStruct \<and> map fst a = attrKeys excl (Fields obj) []"
  unfolding attrsOf_def using extractMapValue_Inr by blast

lemma attrCount_attrsOf:
  assumes "attrsOf e excl obj a"
  shows "attrCount e excl obj = Some (length a)"
proof -
  from assms have k: "Kind obj = KStruct" and ka: "map fst a = attrKeys excl (Fields obj) []"
    using attrsOf_keys by blast+
  from extractMapValue_struct [OF k, of e excl "\<lparr>clock_reads = 0, executed = []\<rparr>"]
  obtain b w' where ex: "extractMapValue e obj excl \<lparr>clock_reads = 0, executed = []\<rparr> = (Inr b, w')"
    and kb: "map fst b = attrKeys excl (Fields obj) []" by blast
  from ka kb have "length a = length b" by (metis length_map)
  with ex show ?thesis by (simp add: attrCount_def)
qed

lemma attrCount_extract:
  "extractMapValue e obj excl w = (Inr a, w') \<Longrightarrow> attrCount e excl obj = Some (length a)"
  by (rule attrCount_attrsOf) (auto simp: attrsOf_def)

lemma attrCount_None: "attrCount e excl obj = None \<longleftrightarrow> Kind obj \<noteq> KStruct"
proof (cases "Kind obj = KStruct")
  case True
  from extractMapValue_struct [OF True, of e excl "\<lparr>clock_reads = 0, executed = []\<rparr>"]
  show ?thesis using True by (auto simp: attrCount_def)
next
  case False
  then show ?thesis by (simp add: attrCount_def extractMapValue_def)
qed

lemma sortedKeys_attrs:
  assumes "map fst a = attrKeys excl fs []"
  shows "sortedKeys a = sorted_list_of_set (db_name ` {f \<in> set fs. extractable excl f})"
proof -
  have d: "distinct (attrKeys excl fs [])" by (rule attrKeys_distinct) simp
  have "sorted_list_of_set (set (attrKeys excl fs [])) = sort (remdups (attrKeys excl fs []))"
    by (rule sorted_list_of_set_sort_remdups)
  with d have "sorted_list_of_set (set (attrKeys excl fs [])) = sort (attrKeys excl fs [])"
    by (simp add: distinct_remdups_id)
  with assms show ?thesis by (simp add: sortedKeys_def attrKeys_set)
qed

section \<open>The values of the attribute map\<close>

lemma attrValue_timestamp:
  "struct_name f = ''CreatedAt'' \<or> struct_name f = ''UpdatedAt'' \<Longrightarrow>
   attrValue e f w = (VTime (now e (clock_reads w)), w\<lparr>clock_reads := Suc (clock_reads w)\<rparr>)"
  by (auto simp add: attrValue_def timeNow_def)

lemma attrValue_plain:
  "\<not> (struct_name f = ''CreatedAt'' \<or> struct_name f = ''UpdatedAt'') \<Longrightarrow>
   attrValue e f w =
     (if has_default_value f \<and> is_blank f
      then (case TagSettingsGet f ''DEFAULT'' of Some val \<Rightarrow> VString val | None \<Rightarrow> field_value f)
      else field_value f, w)"
  by (simp add: attrValue_def split: option.splits)

lemma extractFields_clock:
  "clock_reads w \<le> clock_reads (snd (extractFields e excl fs a w))"
proof (induction fs arbitrary: a w)
  case Nil
  show ?case by simp
next
  case (Cons f fs)
  show ?case
  proof (cases "extractable excl f")
    case False
    with Cons show ?thesis by simp
  next
    case True
    obtain v w' where av: "attrValue e f w = (v, w')" by (cases "attrValue e f w")
    with attrValue_clock [of w e f] have "clock_reads w \<le> clock_reads w'" by simp
    moreover have "clock_reads w' \<le> clock_reads (snd (extractFields e excl fs (AList.update (db_name f) v a) w'))"
      by (rule Cons)
    ultimately show ?thesis using True av by simp
  qed
qed

lemma extractFields_last_value:
  assumes "\<forall>g \<in> set fs. extractable excl g \<and> db_name g = c \<longrightarrow> (\<forall>w. fst (attrValue e g w) = v)"
    and "(\<exists>f \<in> set fs. extractable excl f \<and> db_name f = c) \<or> map_of a c = Some v"
  shows "map_of (fst (extractFields e excl fs a w)) c = Some v"
  using assms
proof (induction fs arbitrary: a w)
  case Nil
  then show ?case by simp
next
  case (Cons f fs)
  show ?case
  proof (cases "extractable excl f")
    case False
    with Cons.prems have "(\<exists>f \<in> set fs. extractable excl f \<and> db_name f = c) \<or> map_of a c = Some v"
      by auto
    moreover from Cons.prems have "\<forall>g \<in> set fs. extractable excl g \<and> db_name g = c \<longrightarrow> (\<forall>w. fst (attrValue e g w) = v)"
      by simp
    ultimately have "map_of (fst (extractFields e excl fs a w)) c = Some v" by (rule Cons.IH [rotated])
    with False show ?thesis by simp
  next
    case True
    obtain u w' where av: "attrValue e f w = (u, w')" by (cases "attrValue e f w")
    have all: "\<forall>g \<in> set fs. extractable excl g \<and> db_name g = c \<longrightarrow> (\<forall>w. fst (attrValue e g w) = v)"
      using Cons.prems by simp
    have "(\<exists>f \<in> set fs. extractable excl f \<and> db_name f = c) \<or> map_of (AList.update (db_name f) u a) c = Some v"
    proof (cases "db_name f = c")
      case same: True
      with True Cons.prems(1) have "fst (attrValue e f w) = v" by simp
      with av have "u = v" by simp
      with same show ?thesis by (simp add: update_conv')
    next
      case diff: False
      with Cons.prems(2) show ?thesis by (auto simp add: update_conv')
    qed
    with all have "map_of (fst (extractFields e excl fs (AList.update (db_name f) u a) w')) c = Some v"
      by (rule Cons.IH)
    with True av show ?thesis by simp
  qed
qed

lemma extractFields_timestamp:
  assumes "\<forall>g \<in> set fs. extractable excl g \<and> db_name g = c \<longrightarrow>
              struct_name g = ''CreatedAt'' \<or> struct_name g = ''UpdatedAt''"
    and "(\<exists>f \<in> set fs. extractable excl f \<and> db_name f = c) \<or>
         (\<exists>k. lo \<le> k \<and> k < clock_reads w \<and> map_of a c = Some (VTime (now e k)))"
    and "lo \<le> clock_reads w"
  shows "\<exists>k. lo \<le> k \<and> k < clock_reads (snd (extractFields e excl fs a w)) \<and>
             map_of (fst (extractFields e excl fs a w)) c = Some (VTime (now e k))"
  using assms
proof (induction fs arbitrary: a w)
  case Nil
  then show ?case by simp
next
  case (Cons f fs)
  have all: "\<forall>g \<in> set fs. extractable excl g \<and> db_name g = c \<longrightarrow>
              struct_name g = ''CreatedAt'' \<or> struct_name g = ''UpdatedAt''"
    using Cons.prems(1) by simp
  show ?case
  proof (cases "extractable excl f")
    case False
    with Cons.prems(2) have "(\<exists>f \<in> set fs. extractable excl f \<and> db_name f = c) \<or>
         (\<exists>k. lo \<le> k \<and> k < clock_reads w \<and> map_of a c = Some (VTime (now e k)))" by auto
    with all have "\<exists>k. lo \<le> k \<and> k < clock_reads (snd (extractFields e excl fs a w)) \<and>
             map_of (fst (extractFields e excl fs a w)) c = Some (VTime (now e k))"
      using Cons.prems(3) by (rule Cons.IH)
    with False show ?thesis by simp
  next
    case True
    obtain u w' where av: "attrValue e f w = (u, w')" by (cases "attrValue e f w")
    with attrValue_clock [of w e f] have mono: "clock_reads w \<le> clock_reads w'" by simp
    with Cons.prems(3) have lo: "lo \<le> clock_reads w'" by simp
    have "(\<exists>f \<in> set fs. extractable excl f \<and> db_name f = c) \<or>
         (\<exists>k. lo \<le> k \<and> k < clock_reads w' \<and> map_of (AList.update (db_name f) u a) c = Some (VTime (now e k)))"
    proof (cases "db_name f = c")
      case same: True
      with True Cons.prems(1) have "struct_name f = ''CreatedAt'' \<or> struct_name f = ''UpdatedAt''"
        by simp
      from attrValue_timestamp [OF this, of e w] av
      have "u = VTime (now e (clock_reads w))" and "clock_reads w' = Suc (clock_reads w)" by auto
      with same Cons.prems(3) have "lo \<le> clock_reads w \<and> clock_reads w < clock_reads w' \<and>
          map_of (AList.update (db_name f) u a) c = Some (VTime (now e (clock_reads w)))"
        by (simp add: update_conv')
      then show ?thesis by blast
    next
      case diff: False
      from Cons.prems(2) show ?thesis
      proof
        assume "\<exists>f\<in>set (f # fs). extractable excl f \<and> db_name f = c"
        with diff show ?thesis by auto
      next
        assume "\<exists>k. lo \<le> k \<and> k < clock_reads w \<and> map_of a c = Some (VTime (now e k))"
        then obtain k where "lo \<le> k" "k < clock_reads w" "map_of a c = Some (VTime (now e k))" by blast
        with mono diff have "lo \<le> k \<and> k < clock_reads w' \<and> map_of (AList.update (db_name f) u a) c = Some (VTime (now e k))"
          by (simp add: update_conv')
        then show ?thesis by blast
      qed
    qed
    with all have "\<exists>k. lo \<le> k \<and> k < clock_reads (snd (extractFields e excl fs (AList.update (db_name f) u a) w')) \<and>
             map_of (fst (extractFields e excl fs (AList.update (db_name f) u a) w')) c = Some (VTime (now e k))"
      using lo by (rule Cons.IH)
    with True av show ?thesis by simp
  qed
qed

text \<open>
  Claim C4. A field that passes the extraction filter and is named \<open>CreatedAt\<close> or
  \<open>UpdatedAt\<close> is bound to a reading of the clock taken during this very call of
  \<open>extractMapValue\<close>, whatever value the caller stored in the field. The attribute map is
  keyed by column name, so the statement is about the column of the field: no field of
  another name writes to the same column (which holds whenever column names are distinct).
\<close>

theorem timestamp_overridden:
  assumes "extractMapValue e obj excl w = (Inr attrs, w')"
    and "f \<in> set (Fields obj)" and "extractable excl f"
    and "struct_name f = ''CreatedAt'' \<or> struct_name f = ''UpdatedAt''"
    and "\<forall>g \<in> set (Fields obj). extractable excl g \<and> db_name g = db_name f \<longrightarrow>
           struct_name g = ''CreatedAt'' \<or> struct_name g = ''UpdatedAt''"
  shows "\<exists>k. clock_reads w \<le> k \<and> k < clock_reads w' \<and>
             map_of attrs (db_name f) = Some (VTime (now e k))"
proof -
  from assms(1) have k: "Kind obj = KStruct"
    by (auto simp: extractMapValue_def split: if_splits)
  with assms(1) have ef: "extractFields e excl (Fields obj) [] w = (attrs, w')"
    by (auto simp: extractMapValue_def split: prod.splits)
  from assms(2,3) have "(\<exists>g \<in> set (Fields obj). extractable excl g \<and> db_name g = db_name f) \<or>
      (\<exists>k. clock_reads w \<le> k \<and> k < clock_reads w \<and> map_of [] (db_name f) = Some (VTime (now e k)))"
    by blast
  with assms(5) have "\<exists>k. clock_reads w \<le> k \<and>
      k < clock_reads (snd (extractFields e excl (Fields obj) [] w)) \<and>
      map_of (fst (extractFields e excl (Fields obj) [] w)) (db_name f) = Some (VTime (now e k))"
    by (rule extractFields_timestamp) simp
  with ef show ?thesis by simp
qed

theorem timestamp_overridden_witness:
  "field_value exCreatedAt = VTime 5 \<and>
   extractMapValue env0 (exUser ''ann'' []) [] w0 =
     (Inr [(''id'', VInt 0), (''email'', VString ''a@b.c''), (''name'', VString ''ann''),
           (''role'', VString ''guest''), (''created_at'', VTime 1000)],
      \<lparr>clock_reads = 1, executed = []\<rparr>) \<and>
   (\<exists>k. clock_reads w0 \<le> k \<and> k < clock_reads \<lparr>clock_reads = 1, executed = []\<rparr> \<and>
        map_of [(''id'', VInt 0), (''email'', VString ''a@b.c''), (''name'', VString ''ann''),
                (''role'', VString ''guest''), (''created_at'', VTime 1000)] (db_name exCreatedAt) =
          Some (VTime (now env0 k)))"
proof -
  have ex: "extractMapValue env0 (exUser ''ann'' []) [] w0 =
     (Inr [(''id'', VInt 0), (''email'', VString ''a@b.c''), (''name'', VString ''ann''),
           (''role'', VString ''guest''), (''created_at'', VTime 1000)],
      \<lparr>clock_reads = 1, executed = []\<rparr>)"
    by code_simp
  have v: "field_value exCreatedAt = VTime 5" by (simp add: exCreatedAt_def mkField_def)
  have m: "exCreatedAt \<in> set (Fields (exUser ''ann'' []))" by (simp add: exUser_def)
  have x: "extractable [] exCreatedAt"
    by (simp add: extractable_def containString_def TagSettingsGet_def exCreatedAt_def mkField_def)
  have n: "struct_name exCreatedAt = ''CreatedAt'' \<or> struct_name exCreatedAt = ''UpdatedAt''"
    by (simp add: exCreatedAt_def mkField_def)
  have u: "\<forall>g \<in> set (Fields (exUser ''ann'' [])). extractable [] g \<and> db_name g = db_name exCreatedAt \<longrightarrow>
           struct_name g = ''CreatedAt'' \<or> struct_name g = ''UpdatedAt''"
    by (simp add: exUser_def exID_def exEmail_def exRole_def exCreatedAt_def mkField_def)
  from timestamp_overridden [OF ex m x n u] ex v show ?thesis by simp
qed

section \<open>The loop over the records of a chunk\<close>

text \<open>The loop over the chunk, when it succeeds.\<close>

lemma extractMapValue_clock:
  "clock_reads w \<le> clock_reads (snd (extractMapValue e obj excl w))"
proof (cases "Kind obj = KStruct")
  case False
  then show ?thesis by (simp add: extractMapValue_def)
next
  case True
  obtain a w' where ef: "extractFields e excl (Fields obj) [] w = (a, w')"
    by (cases "extractFields e excl (Fields obj) [] w")
  with extractFields_clock [of w e excl "Fields obj" "[]"] have "clock_reads w \<le> clock_reads w'" by simp
  with True ef show ?thesis by (simp add: extractMapValue_def)
qed

lemma appendObjects_Inr:
  assumes "appendObjects e excl n objs phs vars w = (Inr (phs', vars'), w')"
  shows "\<exists>as. list_all2 (attrsOf e excl) objs as \<and> (\<forall>a \<in> set as. length a = n) \<and>
           vars' = vars @ concat (map (\<lambda>a. map (lookup a) (sortedKeys a)) as) \<and>
           phs' = phs @ map (\<lambda>a. ''('' @ Join (map (\<lambda>key. ''?'') (sortedKeys a)) '', '' @ '')'') as"
  using assms
proof (induction objs arbitrary: phs vars w)
  case Nil
  then show ?case by simp
next
  case (Cons obj objs)
  obtain r w1 where ex: "extractMapValue e obj excl w = (r, w1)"
    by (cases "extractMapValue e obj excl w")
  show ?case
  proof (cases r)
    case (Inl err)
    with ex Cons.prems show ?thesis by simp
  next
    case (Inr a)
    with ex have ao: "attrsOf e excl obj a" by (auto simp: attrsOf_def)
    from Inr ex Cons.prems have len: "length a = n" by (auto split: if_splits)
    let ?q = "''('' @ Join (map (\<lambda>key. ''?'') (sortedKeys a)) '', '' @ '')''"
    from Inr ex Cons.prems len
    have "appendObjects e excl n objs (phs @ [?q]) (vars @ map (lookup a) (sortedKeys a)) w1 =
            (Inr (phs', vars'), w')" by (simp add: Let_def)
    from Cons.IH [OF this] obtain as where
      as: "list_all2 (attrsOf e excl) objs as" "\<forall>a \<in> set as. length a = n"
        "vars' = (vars @ map (lookup a) (sortedKeys a)) @ concat (map (\<lambda>a. map (lookup a) (sortedKeys a)) as)"
        "phs' = (phs @ [?q]) @ map (\<lambda>a. ''('' @ Join (map (\<lambda>key. ''?'') (sortedKeys a)) '', '' @ '')'') as"
      by blast
    with ao len have "list_all2 (attrsOf e excl) (obj # objs) (a # as) \<and> (\<forall>b \<in> set (a # as). length b = n) \<and>
           vars' = vars @ concat (map (\<lambda>a. map (lookup a) (sortedKeys a)) (a # as)) \<and>
           phs' = phs @ map (\<lambda>a. ''('' @ Join (map (\<lambda>key. ''?'') (sortedKeys a)) '', '' @ '')'') (a # as)"
      by simp
    then show ?thesis by blast
  qed
qed

lemma appendObjects_all_same:
  assumes "\<forall>obj \<in> set objs. attrCount e excl obj = Some n"
  shows "\<exists>pv w'. appendObjects e excl n objs phs vars w = (Inr pv, w')"
  using assms
proof (induction objs arbitrary: phs vars w)
  case Nil
  show ?case by simp
next
  case (Cons obj objs)
  from Cons.prems have c: "attrCount e excl obj = Some n" by simp
  then have "Kind obj = KStruct" using attrCount_None [of e excl obj] by auto
  from extractMapValue_struct [OF this, of e excl w]
  obtain a w1 where ex: "extractMapValue e obj excl w = (Inr a, w1)" by blast
  with attrCount_extract [OF ex] c have len: "length a = n" by simp
  from Cons.prems have "\<forall>obj \<in> set objs. attrCount e excl obj = Some n" by simp
  from Cons.IH [OF this]
  obtain pv w' where "appendObjects e excl n objs
      (phs @ [''('' @ Join (map (\<lambda>key. ''?'') (sortedKeys a)) '', '' @ '')''])
      (vars @ map (lookup a) (sortedKeys a)) w1 = (Inr pv, w')" by blast
  with ex len show ?case by (simp add: Let_def)
qed

lemma appendObjects_mismatch:
  assumes "i < length objs"
    and "\<forall>j < i. Kind (objs ! j) = KStruct"
    and "attrCount e excl (objs ! i) = Some m" and "m \<noteq> n"
  shows "fst (appendObjects e excl n objs phs vars w) = Inl InconsistentSizes"
  using assms
proof (induction objs arbitrary: i phs vars w)
  case Nil
  then show ?case by simp
next
  case (Cons obj objs)
  have k: "Kind obj = KStruct"
  proof (cases i)
    case 0
    with Cons.prems(3) show ?thesis using attrCount_None [of e excl obj] by auto
  next
    case (Suc i')
    with Cons.prems(2) have "Kind ((obj # objs) ! 0) = KStruct" by blast
    then show ?thesis by simp
  qed
  from extractMapValue_struct [OF k, of e excl w]
  obtain a w1 where ex: "extractMapValue e obj excl w = (Inr a, w1)" by blast
  show ?case
  proof (cases "length a = n")
    case False
    with ex show ?thesis by simp
  next
    case True
    have "i \<noteq> 0"
    proof
      assume "i = 0"
      with Cons.prems(3) attrCount_extract [OF ex] have "length a = m" by simp
      with True Cons.prems(4) show False by simp
    qed
    then obtain i' where i: "i = Suc i'" by (cases i) auto
    with Cons.prems have p1: "i' < length objs" and p3: "attrCount e excl (objs ! i') = Some m" by simp_all
    have p2: "\<forall>j < i'. Kind (objs ! j) = KStruct"
    proof (intro allI impI)
      fix j assume "j < i'"
      with i have "Suc j < i" by simp
      with Cons.prems(2) have "Kind ((obj # objs) ! Suc j) = KStruct" by blast
      then show "Kind (objs ! j) = KStruct" by simp
    qed
    from Cons.IH [OF p1 p2 p3 Cons.prems(4)]
    have "fst (appendObjects e excl n objs
      (phs @ [''('' @ Join (map (\<lambda>key. ''?'') (sortedKeys a)) '', '' @ '')''])
      (vars @ map (lookup a) (sortedKeys a)) w1) = Inl InconsistentSizes" .
    with ex True show ?thesis by (simp add: Let_def)
  qed
qed

section \<open>What upsertObjSet executes\<close>

lemma upsertObjSet_empty: "upsertObjSet e [] excl w = (None, w)"
  by (simp add: upsertObjSet_def)

lemma upsertObjSet_first_rejected:
  "extractMapValue e first excl w = (Inl err, w1) \<Longrightarrow>
   upsertObjSet e (first # rest) excl w = (Some err, w1)"
  by (simp add: upsertObjSet_def)

lemma upsertObjSet_loop_rejected:
  "extractMapValue e first excl w = (Inr firstAttrs, w1) \<Longrightarrow>
   appendObjects e excl (length firstAttrs) (first # rest) [] [] w1 = (Inl err, w2) \<Longrightarrow>
   upsertObjSet e (first # rest) excl w = (Some err, w2)"
  by (simp add: upsertObjSet_def Let_def)

lemma upsertObjSet_exec:
  "extractMapValue e first excl w = (Inr firstAttrs, w1) \<Longrightarrow>
   appendObjects e excl (length firstAttrs) (first # rest) [] [] w1 = (Inr (phs, vars), w2) \<Longrightarrow>
   upsertObjSet e (first # rest) excl w =
     (Exec e (executed w2)
        (sqlText (QuotedTableName first) (map (ToColumnName e) (sortedKeys firstAttrs)) phs
           (duplicatesOf excl (Fields first))) vars,
      w2\<lparr>executed := executed w2 @
        [\<lparr>table_name = QuotedTableName first,
          columns = map (ToColumnName e) (sortedKeys firstAttrs),
          placeholders = phs, duplicates = duplicatesOf excl (Fields first),
          sql_text = sqlText (QuotedTableName first) (map (ToColumnName e) (sortedKeys firstAttrs)) phs
             (duplicatesOf excl (Fields first)),
          sql_vars = vars\<rparr>]\<rparr>)"
  by (simp add: upsertObjSet_def Let_def)

lemma upsertObjSet_issued:
  assumes "upsertObjSet e objects excl w = (r, w')" and "executed w' = executed w @ [st]"
  shows "\<exists>firstAttrs as. objects \<noteq> [] \<and> attrsOf e excl (hd objects) firstAttrs \<and>
           list_all2 (attrsOf e excl) objects as \<and>
           (\<forall>a \<in> set as. length a = length firstAttrs) \<and>
           table_name st = QuotedTableName (hd objects) \<and>
           columns st = map (ToColumnName e) (sortedKeys firstAttrs) \<and>
           placeholders st = map (\<lambda>a. ''('' @ Join (map (\<lambda>key. ''?'') (sortedKeys a)) '', '' @ '')'') as \<and>
           duplicates st = duplicatesOf excl (Fields (hd objects)) \<and>
           sql_text st = sqlText (table_name st) (columns st) (placeholders st) (duplicates st) \<and>
           sql_vars st = concat (map (\<lambda>a. map (lookup a) (sortedKeys a)) as) \<and>
           r = Exec e (executed w) (sql_text st) (sql_vars st)"
proof (cases objects)
  case Nil
  with assms show ?thesis by (simp add: upsertObjSet_empty)
next
  case (Cons first rest)
  obtain r1 w1 where ex: "extractMapValue e first excl w = (r1, w1)"
    by (cases "extractMapValue e first excl w")
  with extractMapValue_executed [of e first excl w] have w1: "executed w1 = executed w" by simp
  show ?thesis
  proof (cases r1)
    case (Inl err)
    with ex Cons assms(1) have "w' = w1" by (simp add: upsertObjSet_first_rejected)
    with w1 assms(2) show ?thesis by simp
  next
    case (Inr firstAttrs)
    with ex have ex': "extractMapValue e first excl w = (Inr firstAttrs, w1)" by simp
    then have fa: "attrsOf e excl first firstAttrs" by (auto simp: attrsOf_def)
    obtain r2 w2 where ap: "appendObjects e excl (length firstAttrs) (first # rest) [] [] w1 = (r2, w2)"
      by (cases "appendObjects e excl (length firstAttrs) (first # rest) [] [] w1")
    with appendObjects_executed [of e excl "length firstAttrs" "first # rest" "[]" "[]" w1] w1
    have w2: "executed w2 = executed w" by simp
    show ?thesis
    proof (cases r2)
      case (Inl err)
      with ap ex' Cons assms(1) have "w' = w2" by (simp add: upsertObjSet_loop_rejected)
      with w2 assms(2) show ?thesis by simp
    next
      case (Inr pv)
      obtain phs vars where pv: "pv = (phs, vars)" by (cases pv)
      with Inr ap have ap': "appendObjects e excl (length firstAttrs) (first # rest) [] [] w1 = (Inr (phs, vars), w2)"
        by simp
      from appendObjects_Inr [OF ap'] obtain as where
        as: "list_all2 (attrsOf e excl) (first # rest) as" "\<forall>a \<in> set as. length a = length firstAttrs"
          "vars = concat (map (\<lambda>a. map (lookup a) (sortedKeys a)) as)"
          "phs = map (\<lambda>a. ''('' @ Join (map (\<lambda>key. ''?'') (sortedKeys a)) '', '' @ '')'') as"
        by auto
      let ?st = "\<lparr>table_name = QuotedTableName first,
          columns = map (ToColumnName e) (sortedKeys firstAttrs),
          placeholders = phs, duplicates = duplicatesOf excl (Fields first),
          sql_text = sqlText (QuotedTableName first) (map (ToColumnName e) (sortedKeys firstAttrs)) phs
             (duplicatesOf excl (Fields first)),
          sql_vars = vars\<rparr>"
      from upsertObjSet_exec [OF ex' ap'] Cons assms(1)
      have r: "r = Exec e (executed w2) (sql_text ?st) (sql_vars ?st)"
        and w': "w' = w2\<lparr>executed := executed w2 @ [?st]\<rparr>" by simp_all
      from w' w2 assms(2) have st: "st = ?st" by simp
      have "objects \<noteq> [] \<and> attrsOf e excl (hd objects) firstAttrs \<and>
           list_all2 (attrsOf e excl) objects as \<and>
           (\<forall>a \<in> set as. length a = length firstAttrs) \<and>
           table_name st = QuotedTableName (hd objects) \<and>
           columns st = map (ToColumnName e) (sortedKeys firstAttrs) \<and>
           placeholders st = map (\<lambda>a. ''('' @ Join (map (\<lambda>key. ''?'') (sortedKeys a)) '', '' @ '')'') as \<and>
           duplicates st = duplicatesOf excl (Fields (hd objects)) \<and>
           sql_text st = sqlText (table_name st) (columns st) (placeholders st) (duplicates st) \<and>
           sql_vars st = concat (map (\<lambda>a. map (lookup a) (sortedKeys a)) as) \<and>
           r = Exec e (executed w) (sql_text st) (sql_vars st)"
        using Cons fa as r w2 by (simp add: st)
      then show ?thesis by blast
    qed
  qed
qed

lemma upsertObjSet_at_most_one:
  "executed (snd (upsertObjSet e objects excl w)) = executed w \<or>
   (\<exists>st. executed (snd (upsertObjSet e objects excl w)) = executed w @ [st])"
proof (cases objects)
  case Nil
  then show ?thesis by (simp add: upsertObjSet_empty)
next
  case (Cons first rest)
  obtain r1 w1 where ex: "extractMapValue e first excl w = (r1, w1)"
    by (cases "extractMapValue e first excl w")
  with extractMapValue_executed [of e first excl w] have w1: "executed w1 = executed w" by simp
  show ?thesis
  proof (cases r1)
    case (Inl err)
    with ex Cons w1 show ?thesis by (simp add: upsertObjSet_first_rejected)
  next
    case (Inr firstAttrs)
    with ex have ex': "extractMapValue e first excl w = (Inr firstAttrs, w1)" by simp
    obtain r2 w2 where ap: "appendObjects e excl (length firstAttrs) (first # rest) [] [] w1 = (r2, w2)"
      by (cases "appendObjects e excl (length firstAttrs) (first # rest) [] [] w1")
    with appendObjects_executed [of e excl "length firstAttrs" "first # rest" "[]" "[]" w1] w1
    have w2: "executed w2 = executed w" by simp
    show ?thesis
    proof (cases r2)
      case (Inl err)
      with ap ex' Cons w2 show ?thesis by (simp add: upsertObjSet_loop_rejected)
    next
      case (Inr pv)
      obtain phs vars where pv: "pv = (phs, vars)" by (cases pv)
      with Inr ap have ap': "appendObjects e excl (length firstAttrs) (first # rest) [] [] w1 = (Inr (phs, vars), w2)"
        by simp
      from upsertObjSet_exec [OF ex' ap'] Cons w2 show ?thesis by simp
    qed
  qed
qed

lemma upsertObjSet_accepts:
  assumes "objects \<noteq> []"
    and "attrCount e excl (hd objects) = Some n"
    and "\<forall>obj \<in> set objects. attrCount e excl obj = Some n"
  shows "\<exists>st. executed (snd (upsertObjSet e objects excl w)) = executed w @ [st] \<and>
              fst (upsertObjSet e objects excl w) = Exec e (executed w) (sql_text st) (sql_vars st)"
proof -
  from assms(1) obtain first rest where obj: "objects = first # rest" by (cases objects) auto
  with assms(2) have "Kind first = KStruct" using attrCount_None [of e excl first] by auto
  from extractMapValue_struct [OF this, of e excl w]
  obtain firstAttrs w1 where ex: "extractMapValue e first excl w = (Inr firstAttrs, w1)" by blast
  with extractMapValue_executed [of e first excl w] have w1: "executed w1 = executed w" by simp
  from attrCount_extract [OF ex] assms(2) obj have n: "length firstAttrs = n" by simp
  from appendObjects_all_same [OF assms(3), of "[]" "[]" w1] obj n
  obtain pv w2 where "appendObjects e excl (length firstAttrs) (first # rest) [] [] w1 = (Inr pv, w2)"
    by auto
  then obtain phs vars where ap: "appendObjects e excl (length firstAttrs) (first # rest) [] [] w1 = (Inr (phs, vars), w2)"
    by (cases pv) auto
  with appendObjects_executed [of e excl "length firstAttrs" "first # rest" "[]" "[]" w1] w1
  have w2: "executed w2 = executed w" by simp
  from upsertObjSet_exec [OF ex ap] obj w2 show ?thesis by simp
qed

section \<open>Origin of the columns, the values and the conflict clause\<close>

lemma duplicatesOf_filter:
  "duplicatesOf excl fs = map (\<lambda>f. fragment (db_name f)) (filter (\<lambda>f. \<not> notUpdated excl f) fs)"
  by (induction fs) simp_all

lemma fragment_inj: "fragment a = fragment b \<Longrightarrow> a = b"
proof -
  assume eq: "fragment a = fragment b"
  then have "length (fragment a) = length (fragment b)" by simp
  then have len: "length a = length b" by (simp add: fragment_def)
  from eq have "a @ (''`=VALUES(`'' @ a @ ''`)'') = b @ (''`=VALUES(`'' @ b @ ''`)'')"
    by (simp add: fragment_def)
  moreover from len
  have "(a @ (''`=VALUES(`'' @ a @ ''`)'') = b @ (''`=VALUES(`'' @ b @ ''`)'')) =
        (a = b \<and> ''`=VALUES(`'' @ a @ ''`)'' = ''`=VALUES(`'' @ b @ ''`)'')"
    by (intro append_eq_append_conv) simp
  ultimately show "a = b" by blast
qed

lemma attrsOf_key_origin:
  assumes "attrsOf e excl obj a" and "k \<in> set (sortedKeys a)"
  shows "\<exists>g \<in> set (Fields obj). extractable excl g \<and> k = db_name g"
proof -
  from assms(1) have "map fst a = attrKeys excl (Fields obj) []" using attrsOf_keys by blast
  with assms(2) have "k \<in> set (attrKeys excl (Fields obj) [])" by (simp add: sortedKeys_def)
  then show ?thesis by (auto simp: attrKeys_set)
qed

lemma attrsOf_key_present:
  assumes "attrsOf e excl obj a" and "g \<in> set (Fields obj)" and "extractable excl g"
  shows "db_name g \<in> set (sortedKeys a)"
proof -
  from assms(1) have "map fst a = attrKeys excl (Fields obj) []" using attrsOf_keys by blast
  then have "set (sortedKeys a) = set (attrKeys excl (Fields obj) [])" by (simp add: sortedKeys_def)
  with assms(2,3) show ?thesis by (auto simp: attrKeys_set)
qed

lemma length_sortedKeys: "length (sortedKeys a) = length a"
  by (simp add: sortedKeys_def)

lemma length_concat_rows:
  "\<forall>a \<in> set as. length a = n \<Longrightarrow>
   length (concat (map (\<lambda>a. map (lookup a) (sortedKeys a)) as)) = length as * n"
  by (induction as) (simp_all add: length_sortedKeys)

section \<open>Claims about one chunk\<close>

text \<open>
  Claim C3. In a statement that \<open>upsertObjSet\<close> executes, every column of the column list
  and every fragment of the \<open>ON DUPLICATE KEY UPDATE\<close> clause stems from a field whose name
  is not in \<open>excludeColumns\<close>; every key of the attribute map of every record of the chunk
  stems from such a field of that record, and the statement binds exactly one value per
  record and column. Hence the column of an excluded field (more precisely: a column to
  which only excluded fields are mapped) is neither in the column list nor in the clause.
\<close>

theorem excluded_field_not_emitted:
  assumes "upsertObjSet e objects excl w = (r, w')" and "executed w' = executed w @ [st]"
  shows "(\<forall>c \<in> set (columns st). \<exists>g \<in> set (Fields (hd objects)).
            struct_name g \<notin> set excl \<and> c = ToColumnName e (db_name g)) \<and>
         (\<forall>d \<in> set (duplicates st). \<exists>g \<in> set (Fields (hd objects)).
            struct_name g \<notin> set excl \<and> d = fragment (db_name g)) \<and>
         (\<forall>obj \<in> set objects. \<forall>a. attrsOf e excl obj a \<longrightarrow>
            (\<forall>k \<in> set (sortedKeys a). \<exists>g \<in> set (Fields obj).
               struct_name g \<notin> set excl \<and> k = db_name g)) \<and>
         length (sql_vars st) = length objects * length (columns st) \<and>
         (\<forall>f \<in> set (Fields (hd objects)).
            (\<forall>g \<in> set (Fields (hd objects)).
               ToColumnName e (db_name g) = ToColumnName e (db_name f) \<longrightarrow> struct_name g \<in> set excl) \<longrightarrow>
            ToColumnName e (db_name f) \<notin> set (columns st) \<and>
            fragment (db_name f) \<notin> set (duplicates st))"
proof -
  from upsertObjSet_issued [OF assms] obtain firstAttrs as where
    fa: "attrsOf e excl (hd objects) firstAttrs"
    and as: "list_all2 (attrsOf e excl) objects as" "\<forall>a \<in> set as. length a = length firstAttrs"
    and cols: "columns st = map (ToColumnName e) (sortedKeys firstAttrs)"
    and dups: "duplicates st = duplicatesOf excl (Fields (hd objects))"
    and vars: "sql_vars st = concat (map (\<lambda>a. map (lookup a) (sortedKeys a)) as)"
    by blast
  have c: "\<forall>c \<in> set (columns st). \<exists>g \<in> set (Fields (hd objects)).
            struct_name g \<notin> set excl \<and> c = ToColumnName e (db_name g)"
  proof
    fix c assume "c \<in> set (columns st)"
    with cols obtain k where k: "k \<in> set (sortedKeys firstAttrs)" "c = ToColumnName e k" by auto
    from attrsOf_key_origin [OF fa k(1)] obtain g where
      "g \<in> set (Fields (hd objects))" "extractable excl g" "k = db_name g" by blast
    with k(2) show "\<exists>g \<in> set (Fields (hd objects)). struct_name g \<notin> set excl \<and> c = ToColumnName e (db_name g)"
      by (auto simp: extractable_def containString_def)
  qed
  have d: "\<forall>d \<in> set (duplicates st). \<exists>g \<in> set (Fields (hd objects)).
            struct_name g \<notin> set excl \<and> d = fragment (db_name g)"
    using dups by (auto simp: duplicatesOf_filter notUpdated_def containString_def)
  have k: "\<forall>obj \<in> set objects. \<forall>a. attrsOf e excl obj a \<longrightarrow>
            (\<forall>k \<in> set (sortedKeys a). \<exists>g \<in> set (Fields obj).
               struct_name g \<notin> set excl \<and> k = db_name g)"
  proof (intro ballI allI impI)
    fix obj a k assume "attrsOf e excl obj a" "k \<in> set (sortedKeys a)"
    from attrsOf_key_origin [OF this] obtain g where
      "g \<in> set (Fields obj)" "extractable excl g" "k = db_name g" by blast
    then show "\<exists>g \<in> set (Fields obj). struct_name g \<notin> set excl \<and> k = db_name g"
      by (auto simp: extractable_def containString_def)
  qed
  have "length as = length objects" using as(1) by (simp add: list_all2_lengthD)
  with length_concat_rows [OF as(2)] vars cols
  have n: "length (sql_vars st) = length objects * length (columns st)"
    by (simp add: length_sortedKeys)
  have l: "\<forall>f \<in> set (Fields (hd objects)).
            (\<forall>g \<in> set (Fields (hd objects)).
               ToColumnName e (db_name g) = ToColumnName e (db_name f) \<longrightarrow> struct_name g \<in> set excl) \<longrightarrow>
            ToColumnName e (db_name f) \<notin> set (columns st) \<and>
            fragment (db_name f) \<notin> set (duplicates st)"
  proof (intro ballI impI conjI)
    fix f
    assume only: "\<forall>g \<in> set (Fields (hd objects)).
               ToColumnName e (db_name g) = ToColumnName e (db_name f) \<longrightarrow> struct_name g \<in> set excl"
    show "ToColumnName e (db_name f) \<notin> set (columns st)"
    proof
      assume "ToColumnName e (db_name f) \<in> set (columns st)"
      with c obtain g where "g \<in> set (Fields (hd objects))" "struct_name g \<notin> set excl"
        "ToColumnName e (db_name f) = ToColumnName e (db_name g)" by blast
      with only show False by auto
    qed
    show "fragment (db_name f) \<notin> set (duplicates st)"
    proof
      assume "fragment (db_name f) \<in> set (duplicates st)"
      with d obtain g where g: "g \<in> set (Fields (hd objects))" "struct_name g \<notin> set excl"
        "fragment (db_name f) = fragment (db_name g)" by blast
      from fragment_inj [OF g(3)] have "db_name g = db_name f" by simp
      with only g(1,2) show False by auto
    qed
  qed
  from c d k n l show ?thesis by blast
qed

theorem excluded_field_not_emitted_witness:
  "columns (hd (executed (snd (upsertObjSet env0 [exUser ''ann'' [], exUser ''bob'' ''admin''] [''Email''] w0)))) =
     [''created_at'', ''id'', ''name'', ''role''] \<and>
   ''email'' \<notin> set (columns (hd (executed (snd (upsertObjSet env0 [exUser ''ann'' [], exUser ''bob'' ''admin''] [''Email''] w0))))) \<and>
   fragment ''email'' \<notin> set (duplicates (hd (executed (snd (upsertObjSet env0 [exUser ''ann'' [], exUser ''bob'' ''admin''] [''Email''] w0))))) \<and>
   length (sql_vars (hd (executed (snd (upsertObjSet env0 [exUser ''ann'' [], exUser ''bob'' ''admin''] [''Email''] w0))))) = 2 * 4"
proof -
  let ?objs = "[exUser ''ann'' [], exUser ''bob'' ''admin'']"
  let ?res = "upsertObjSet env0 ?objs [''Email''] w0"
  let ?st = "hd (executed (snd ?res))"
  have run: "?res = (fst ?res, snd ?res)" by simp
  have one: "executed (snd ?res) = executed w0 @ [?st]" by code_simp
  have cols: "columns ?st = [''created_at'', ''id'', ''name'', ''role'']" by code_simp
  note inst = excluded_field_not_emitted [OF run one]
  have f: "exEmail \<in> set (Fields (hd ?objs))" by (simp add: exUser_def)
  have only: "\<forall>g \<in> set (Fields (hd ?objs)).
      ToColumnName env0 (db_name g) = ToColumnName env0 (db_name exEmail) \<longrightarrow> struct_name g \<in> set [''Email'']"
    by (simp add: exUser_def exID_def exEmail_def exRole_def exCreatedAt_def mkField_def env0_def)
  from inst f only have "ToColumnName env0 (db_name exEmail) \<notin> set (columns ?st) \<and>
      fragment (db_name exEmail) \<notin> set (duplicates ?st)" by blast
  then have a: "''email'' \<notin> set (columns ?st) \<and> fragment ''email'' \<notin> set (duplicates ?st)"
    by (simp add: exEmail_def mkField_def env0_def)
  from inst have "length (sql_vars ?st) = length ?objs * length (columns ?st)" by blast
  with cols have b: "length (sql_vars ?st) = 2 * 4" by simp
  from cols a b show ?thesis by blast
qed

text \<open>
  Claim C2, as amended. A field that is the primary key or carries a \<open>UNIQUE\<close> or
  \<open>UNIQUE_INDEX\<close> tag never contributes a fragment to the \<open>ON DUPLICATE KEY UPDATE\<close>
  clause. It is a column of the \<open>INSERT\<close> column list like every other field that passes
  the extraction filter (not excluded by name, no relationship, no \<open>FOREIGNKEY\<close> tag, not
  ignored).
\<close>

theorem key_fields_inserted_not_updated:
  assumes "upsertObjSet e objects excl w = (r, w')" and "executed w' = executed w @ [st]"
  shows "(\<forall>d \<in> set (duplicates st). \<exists>g \<in> set (Fields (hd objects)).
            d = fragment (db_name g) \<and> \<not> is_primary_key g \<and>
            TagSettingsGet g ''UNIQUE'' = None \<and> TagSettingsGet g ''UNIQUE_INDEX'' = None) \<and>
         (\<forall>f \<in> set (Fields (hd objects)).
            (\<forall>g \<in> set (Fields (hd objects)). db_name g = db_name f \<longrightarrow>
               is_primary_key g \<or> TagSettingsGet g ''UNIQUE'' \<noteq> None \<or>
               TagSettingsGet g ''UNIQUE_INDEX'' \<noteq> None) \<longrightarrow>
            fragment (db_name f) \<notin> set (duplicates st)) \<and>
         (\<forall>f \<in> set (Fields (hd objects)).
            extractable excl f \<longrightarrow> ToColumnName e (db_name f) \<in> set (columns st))"
proof -
  from upsertObjSet_issued [OF assms] obtain firstAttrs where
    fa: "attrsOf e excl (hd objects) firstAttrs"
    and cols: "columns st = map (ToColumnName e) (sortedKeys firstAttrs)"
    and dups: "duplicates st = duplicatesOf excl (Fields (hd objects))"
    by blast
  have d: "\<forall>d \<in> set (duplicates st). \<exists>g \<in> set (Fields (hd objects)).
            d = fragment (db_name g) \<and> \<not> is_primary_key g \<and>
            TagSettingsGet g ''UNIQUE'' = None \<and> TagSettingsGet g ''UNIQUE_INDEX'' = None"
    using dups by (auto simp: duplicatesOf_filter notUpdated_def)
  have l: "\<forall>f \<in> set (Fields (hd objects)).
            (\<forall>g \<in> set (Fields (hd objects)). db_name g = db_name f \<longrightarrow>
               is_primary_key g \<or> TagSettingsGet g ''UNIQUE'' \<noteq> None \<or>
               TagSettingsGet g ''UNIQUE_INDEX'' \<noteq> None) \<longrightarrow>
            fragment (db_name f) \<notin> set (duplicates st)"
  proof (intro ballI impI)
    fix f
    assume only: "\<forall>g \<in> set (Fields (hd objects)). db_name g = db_name f \<longrightarrow>
               is_primary_key g \<or> TagSettingsGet g ''UNIQUE'' \<noteq> None \<or>
               TagSettingsGet g ''UNIQUE_INDEX'' \<noteq> None"
    show "fragment (db_name f) \<notin> set (duplicates st)"
    proof
      assume "fragment (db_name f) \<in> set (duplicates st)"
      with d obtain g where g: "g \<in> set (Fields (hd objects))"
        "fragment (db_name f) = fragment (db_name g)" "\<not> is_primary_key g"
        "TagSettingsGet g ''UNIQUE'' = None" "TagSettingsGet g ''UNIQUE_INDEX'' = None" by blast
      from fragment_inj [OF g(2)] have "db_name g = db_name f" by simp
      with only g show False by auto
    qed
  qed
  have c: "\<forall>f \<in> set (Fields (hd objects)).
            extractable excl f \<longrightarrow> ToColumnName e (db_name f) \<in> set (columns st)"
    using attrsOf_key_present [OF fa] cols by auto
  from d l c show ?thesis by blast
qed

theorem key_fields_inserted_not_updated_witness:
  "is_primary_key exID \<and>
   fragment ''id'' \<notin> set (duplicates (hd (executed (snd (upsertObjSet env0 [exUser ''ann'' []] [] w0))))) \<and>
   ''id'' \<in> set (columns (hd (executed (snd (upsertObjSet env0 [exUser ''ann'' []] [] w0)))))"
proof -
  let ?objs = "[exUser ''ann'' []]"
  let ?res = "upsertObjSet env0 ?objs [] w0"
  let ?st = "hd (executed (snd ?res))"
  have run: "?res = (fst ?res, snd ?res)" by simp
  have one: "executed (snd ?res) = executed w0 @ [?st]" by code_simp
  note inst = key_fields_inserted_not_updated [OF run one]
  have pk: "is_primary_key exID" by (simp add: exID_def mkField_def)
  have f: "exID \<in> set (Fields (hd ?objs))" by (simp add: exUser_def)
  have only: "\<forall>g \<in> set (Fields (hd ?objs)). db_name g = db_name exID \<longrightarrow>
      is_primary_key g \<or> TagSettingsGet g ''UNIQUE'' \<noteq> None \<or> TagSettingsGet g ''UNIQUE_INDEX'' \<noteq> None"
    by (simp add: exUser_def exID_def exEmail_def exRole_def exCreatedAt_def mkField_def)
  have x: "extractable [] exID"
    by (simp add: extractable_def containString_def TagSettingsGet_def exID_def mkField_def)
  from inst f only have "fragment (db_name exID) \<notin> set (duplicates ?st)" by blast
  moreover from inst f x have "ToColumnName env0 (db_name exID) \<in> set (columns ?st)" by blast
  ultimately show ?thesis using pk by (simp add: exID_def mkField_def env0_def)
qed

text \<open>
  Claim C2 as stated fails: the primary key \<open>ID\<close> of the example record is not a writable
  column candidate in the spec's sense, and yet its column is in the column list of the
  statement (and so is the column of the unique field \<open>Email\<close>).
\<close>

theorem key_fields_counterexample:
  "is_primary_key exID \<and> \<not> specCandidate [] exID \<and> exID \<in> set (Fields (exUser ''ann'' [])) \<and>
   db_name exID = ''id'' \<and>
   map columns (executed (snd (upsertObjSet env0 [exUser ''ann'' []] [] w0))) =
     [[''created_at'', ''email'', ''id'', ''name'', ''role'']]"
proof -
  have "is_primary_key exID \<and> \<not> specCandidate [] exID \<and> db_name exID = ''id''"
    by (simp add: exID_def mkField_def specCandidate_def)
  moreover have "exID \<in> set (Fields (exUser ''ann'' []))" by (simp add: exUser_def)
  moreover have "map columns (executed (snd (upsertObjSet env0 [exUser ''ann'' []] [] w0))) =
     [[''created_at'', ''email'', ''id'', ''name'', ''role'']]" by code_simp
  ultimately show ?thesis by blast
qed

text \<open>
  Claim C6. When all records up to some record of the chunk are structs and the attribute
  map of that record has another size than the attribute map of the first record,
  \<open>upsertObjSet\<close> returns the error "attribute sizes are inconsistent" and executes no
  statement.
\<close>

theorem inconsistent_sizes_rejected:
  assumes "i < length objects"
    and "\<forall>j < i. Kind (objects ! j) = KStruct"
    and "attrCount e excl (hd objects) = Some n"
    and "attrCount e excl (objects ! i) = Some m"
    and "m \<noteq> n"
  shows "fst (upsertObjSet e objects excl w) = Some InconsistentSizes \<and>
         executed (snd (upsertObjSet e objects excl w)) = executed w"
proof -
  from assms(1) obtain first rest where obj: "objects = first # rest" by (cases objects) auto
  with assms(3) have "Kind first = KStruct" using attrCount_None [of e excl first] by auto
  from extractMapValue_struct [OF this, of e excl w]
  obtain firstAttrs w1 where ex: "extractMapValue e first excl w = (Inr firstAttrs, w1)" by blast
  with extractMapValue_executed [of e first excl w] have w1: "executed w1 = executed w" by simp
  from attrCount_extract [OF ex] assms(3) obj have n: "length firstAttrs = n" by simp
  obtain r2 w2 where ap: "appendObjects e excl (length firstAttrs) (first # rest) [] [] w1 = (r2, w2)"
    by (cases "appendObjects e excl (length firstAttrs) (first # rest) [] [] w1")
  with appendObjects_executed [of e excl "length firstAttrs" "first # rest" "[]" "[]" w1] w1
  have w2: "executed w2 = executed w" by simp
  from appendObjects_mismatch [OF assms(1,2,4,5), of "[]" "[]" w1] obj n ap
  have "r2 = Inl InconsistentSizes" by simp
  with ap have "upsertObjSet e (first # rest) excl w = (Some InconsistentSizes, w2)"
    using ex by (simp add: upsertObjSet_loop_rejected)
  with obj w2 show ?thesis by simp
qed

theorem inconsistent_sizes_rejected_witness:
  "attrCount env0 [] exTag = Some 1 \<and> attrCount env0 [] exLink = Some 2 \<and>
   fst (upsertObjSet env0 [exTag, exLink] [] w0) = Some InconsistentSizes \<and>
   executed (snd (upsertObjSet env0 [exTag, exLink] [] w0)) = []"
proof -
  have i: "1 < length [exTag, exLink]" by simp
  have k: "\<forall>j < 1. Kind ([exTag, exLink] ! j) = KStruct" by (simp add: exTag_def)
  have n: "attrCount env0 [] (hd [exTag, exLink]) = Some 1" by code_simp
  have m: "attrCount env0 [] ([exTag, exLink] ! 1) = Some 2" by code_simp
  have d: "(2::nat) \<noteq> 1" by simp
  from inconsistent_sizes_rejected [OF i k n m d, of w0] n m show ?thesis
    by (simp add: w0_def)
qed

text \<open>
  Claim C10. The consistency check compares sizes only. When all records of a chunk are
  structs whose attribute maps have the same size, whatever their keys, \<open>upsertObjSet\<close>
  executes a statement: its column list comes from the attribute map of the first record,
  and each record contributes its own values in the order of its own sorted keys.
\<close>

theorem same_size_accepted:
  assumes "objects \<noteq> []"
    and "attrCount e excl (hd objects) = Some n"
    and "\<forall>obj \<in> set objects. attrCount e excl obj = Some n"
  shows "\<exists>st firstAttrs as.
           executed (snd (upsertObjSet e objects excl w)) = executed w @ [st] \<and>
           fst (upsertObjSet e objects excl w) = Exec e (executed w) (sql_text st) (sql_vars st) \<and>
           attrsOf e excl (hd objects) firstAttrs \<and>
           columns st = map (ToColumnName e) (sortedKeys firstAttrs) \<and>
           list_all2 (attrsOf e excl) objects as \<and>
           sql_vars st = concat (map (\<lambda>a. map (lookup a) (sortedKeys a)) as)"
proof -
  from upsertObjSet_accepts [OF assms, of w] obtain st where
    st: "executed (snd (upsertObjSet e objects excl w)) = executed w @ [st]"
      "fst (upsertObjSet e objects excl w) = Exec e (executed w) (sql_text st) (sql_vars st)"
    by blast
  have "upsertObjSet e objects excl w = (fst (upsertObjSet e objects excl w), snd (upsertObjSet e objects excl w))"
    by simp
  from upsertObjSet_issued [OF this st(1)] obtain firstAttrs as where
    "attrsOf e excl (hd objects) firstAttrs" "list_all2 (attrsOf e excl) objects as"
    "columns st = map (ToColumnName e) (sortedKeys firstAttrs)"
    "sql_vars st = concat (map (\<lambda>a. map (lookup a) (sortedKeys a)) as)" by blast
  with st show ?thesis by blast
qed

theorem same_size_accepted_witness:
  "(\<exists>st firstAttrs as.
      executed (snd (upsertObjSet env0 [exTag, exNote] [] w0)) = executed w0 @ [st] \<and>
      fst (upsertObjSet env0 [exTag, exNote] [] w0) = Exec env0 (executed w0) (sql_text st) (sql_vars st) \<and>
      attrsOf env0 [] (hd [exTag, exNote]) firstAttrs \<and>
      columns st = map (ToColumnName env0) (sortedKeys firstAttrs) \<and>
      list_all2 (attrsOf env0 []) [exTag, exNote] as \<and>
      sql_vars st = concat (map (\<lambda>a. map (lookup a) (sortedKeys a)) as)) \<and>
   sortedKeys (projr (fst (extractMapValue env0 exTag [] w0))) = [''label''] \<and>
   sortedKeys (projr (fst (extractMapValue env0 exNote [] w0))) = [''body''] \<and>
   map columns (executed (snd (upsertObjSet env0 [exTag, exNote] [] w0))) = [[''label'']] \<and>
   map sql_vars (executed (snd (upsertObjSet env0 [exTag, exNote] [] w0))) = [[VString ''x'', VString ''y'']]"
proof -
  have ne: "[exTag, exNote] \<noteq> []" by simp
  have n: "attrCount env0 [] (hd [exTag, exNote]) = Some 1" by code_simp
  have "attrCount env0 [] exTag = Some 1" "attrCount env0 [] exNote = Some 1" by code_simp+
  then have a: "\<forall>obj \<in> set [exTag, exNote]. attrCount env0 [] obj = Some 1" by simp
  have k1: "sortedKeys (projr (fst (extractMapValue env0 exTag [] w0))) = [''label'']" by code_simp
  have k2: "sortedKeys (projr (fst (extractMapValue env0 exNote [] w0))) = [''body'']" by code_simp
  have c: "map columns (executed (snd (upsertObjSet env0 [exTag, exNote] [] w0))) = [[''label'']]"
    by code_simp
  have v: "map sql_vars (executed (snd (upsertObjSet env0 [exTag, exNote] [] w0))) = [[VString ''x'', VString ''y'']]"
    by code_simp
  from same_size_accepted [OF ne n a, of w0] k1 k2 c v show ?thesis by blast
qed

section \<open>The loop over the chunks\<close>

lemma upsertObjSet_None:
  assumes "upsertObjSet e objects excl w = (None, w')" and "objects \<noteq> []"
  shows "\<exists>st. executed w' = executed w @ [st]"
proof -
  from assms(2) obtain first rest where obj: "objects = first # rest" by (cases objects) auto
  obtain r1 w1 where ex: "extractMapValue e first excl w = (r1, w1)"
    by (cases "extractMapValue e first excl w")
  with extractMapValue_executed [of e first excl w] have w1: "executed w1 = executed w" by simp
  show ?thesis
  proof (cases r1)
    case (Inl err)
    with ex obj assms(1) show ?thesis by (simp add: upsertObjSet_first_rejected)
  next
    case (Inr firstAttrs)
    with ex have ex': "extractMapValue e first excl w = (Inr firstAttrs, w1)" by simp
    obtain r2 w2 where ap: "appendObjects e excl (length firstAttrs) (first # rest) [] [] w1 = (r2, w2)"
      by (cases "appendObjects e excl (length firstAttrs) (first # rest) [] [] w1")
    with appendObjects_executed [of e excl "length firstAttrs" "first # rest" "[]" "[]" w1] w1
    have w2: "executed w2 = executed w" by simp
    show ?thesis
    proof (cases r2)
      case (Inl err)
      with ap ex' obj assms(1) show ?thesis by (simp add: upsertObjSet_loop_rejected)
    next
      case (Inr pv)
      obtain phs vars where pv: "pv = (phs, vars)" by (cases pv)
      with Inr ap have ap': "appendObjects e excl (length firstAttrs) (first # rest) [] [] w1 = (Inr (phs, vars), w2)"
        by simp
      from upsertObjSet_exec [OF ex' ap'] obj w2 assms(1) show ?thesis by auto
    qed
  qed
qed

lemma upsertChunks_append:
  "upsertChunks e pre excl w = (None, w1) \<Longrightarrow>
   upsertChunks e (pre @ rest) excl w = upsertChunks e rest excl w1"
proof (induction pre arbitrary: w)
  case Nil
  then show ?case by simp
next
  case (Cons c pre)
  obtain r1 wa where u: "upsertObjSet e c excl w = (r1, wa)" by (cases "upsertObjSet e c excl w")
  show ?case
  proof (cases r1)
    case None
    with u Cons.prems have "upsertChunks e pre excl wa = (None, w1)" by simp
    from Cons.IH [OF this] None u show ?thesis by simp
  next
    case (Some err)
    with u Cons.prems show ?thesis by simp
  qed
qed

lemma upsertChunks_stop:
  "upsertObjSet e c excl w1 = (Some err, w2) \<Longrightarrow> upsertChunks e (c # post) excl w1 = (Some err, w2)"
  by simp

lemma upsertChunks_count:
  "upsertChunks e chunks excl w = (None, w') \<Longrightarrow>
   length (executed w') = length (executed w) + length (filter (\<lambda>c. c \<noteq> []) chunks)"
proof (induction chunks arbitrary: w)
  case Nil
  then show ?case by simp
next
  case (Cons c chunks)
  obtain r1 wa where u: "upsertObjSet e c excl w = (r1, wa)" by (cases "upsertObjSet e c excl w")
  show ?case
  proof (cases r1)
    case (Some err)
    with u Cons.prems show ?thesis by simp
  next
    case None
    with u Cons.prems have "upsertChunks e chunks excl wa = (None, w')" by simp
    from Cons.IH [OF this]
    have ih: "length (executed w') = length (executed wa) + length (filter (\<lambda>c. c \<noteq> []) chunks)" .
    show ?thesis
    proof (cases "c = []")
      case True
      with u have "wa = w" by (simp add: upsertObjSet_empty)
      with ih True show ?thesis by simp
    next
      case False
      from u None have "upsertObjSet e c excl w = (None, wa)" by simp
      from upsertObjSet_None [OF this False] obtain st where "executed wa = executed w @ [st]" ..
      with ih False show ?thesis by simp
    qed
  qed
qed

lemma upsertChunks_all_ok:
  "\<forall>i < length chunks.
     fst (upsertObjSet e (chunks ! i) excl (snd (upsertChunks e (take i chunks) excl w))) = None \<Longrightarrow>
   fst (upsertChunks e chunks excl w) = None"
proof (induction chunks arbitrary: w)
  case Nil
  show ?case by simp
next
  case (Cons c cs)
  obtain r1 wa where u: "upsertObjSet e c excl w = (r1, wa)" by (cases "upsertObjSet e c excl w")
  from Cons.prems have "fst (upsertObjSet e ((c # cs) ! 0) excl (snd (upsertChunks e (take 0 (c # cs)) excl w))) = None"
    by blast
  with u have r1: "r1 = None" by simp
  have "\<forall>i < length cs.
     fst (upsertObjSet e (cs ! i) excl (snd (upsertChunks e (take i cs) excl wa))) = None"
  proof (intro allI impI)
    fix i assume "i < length cs"
    then have "Suc i < length (c # cs)" by simp
    with Cons.prems
    have "fst (upsertObjSet e ((c # cs) ! Suc i) excl (snd (upsertChunks e (take (Suc i) (c # cs)) excl w))) = None"
      by blast
    with u r1 show "fst (upsertObjSet e (cs ! i) excl (snd (upsertChunks e (take i cs) excl wa))) = None"
      by simp
  qed
  from Cons.IH [OF this] u r1 show ?case by simp
qed

text \<open>
  Claim C9. \<open>BulkUpsert\<close> runs the chunks in order. When the chunks before some chunk
  succeed and that chunk fails, in building or in execution, \<open>BulkUpsert\<close> returns that
  very error in the state that chunk left: the later chunks are not processed, and the
  failing chunk was executed at most once. When every chunk succeeds in the state in
  which it is reached, \<open>BulkUpsert\<close> returns no error and has executed one statement per
  non-empty chunk (and whenever it returns no error, that is the number of statements).
  On an empty input it executes nothing and returns no error.
\<close>

theorem bulk_upsert_stops_at_first_error:
  "(splitObjects objects chunkSize = Some (pre @ c # post) \<and>
    upsertChunks e pre excl w = (None, w1) \<and>
    upsertObjSet e c excl w1 = (Some err, w2) \<longrightarrow>
      BulkUpsert e objects chunkSize excl w = Some (Some err, w2) \<and>
      length (executed w2) \<le> Suc (length (executed w1))) \<and>
   (splitObjects objects chunkSize = Some chunks \<and>
    (\<forall>i < length chunks.
       fst (upsertObjSet e (chunks ! i) excl (snd (upsertChunks e (take i chunks) excl w))) = None) \<longrightarrow>
      (\<exists>w'. BulkUpsert e objects chunkSize excl w = Some (None, w') \<and>
            length (executed w') = length (executed w) + length (filter (\<lambda>c. c \<noteq> []) chunks))) \<and>
   (splitObjects objects chunkSize = Some chunks \<and>
    BulkUpsert e objects chunkSize excl w = Some (None, w') \<longrightarrow>
      length (executed w') = length (executed w) + length (filter (\<lambda>c. c \<noteq> []) chunks)) \<and>
   BulkUpsert e [] chunkSize excl w = Some (None, w)"
proof (intro conjI impI)
  assume h: "splitObjects objects chunkSize = Some (pre @ c # post) \<and>
    upsertChunks e pre excl w = (None, w1) \<and>
    upsertObjSet e c excl w1 = (Some err, w2)"
  then have "upsertChunks e (pre @ c # post) excl w = upsertChunks e (c # post) excl w1"
    by (intro upsertChunks_append) simp
  also from h have "\<dots> = (Some err, w2)" by (intro upsertChunks_stop) simp
  finally show "BulkUpsert e objects chunkSize excl w = Some (Some err, w2)"
    using h by (simp add: BulkUpsert_def)
  from h upsertObjSet_at_most_one [of e c excl w1]
  show "length (executed w2) \<le> Suc (length (executed w1))" by auto
next
  assume h: "splitObjects objects chunkSize = Some chunks \<and>
    (\<forall>i < length chunks.
       fst (upsertObjSet e (chunks ! i) excl (snd (upsertChunks e (take i chunks) excl w))) = None)"
  then have "fst (upsertChunks e chunks excl w) = None" by (intro upsertChunks_all_ok) simp
  then have run: "upsertChunks e chunks excl w = (None, snd (upsertChunks e chunks excl w))"
    by (simp add: prod_eq_iff)
  from upsertChunks_count [OF run]
  have n: "length (executed (snd (upsertChunks e chunks excl w))) =
      length (executed w) + length (filter (\<lambda>c. c \<noteq> []) chunks)" .
  from h run have "BulkUpsert e objects chunkSize excl w = Some (None, snd (upsertChunks e chunks excl w))"
    by (simp add: BulkUpsert_def)
  with n show "\<exists>w'. BulkUpsert e objects chunkSize excl w = Some (None, w') \<and>
            length (executed w') = length (executed w) + length (filter (\<lambda>c. c \<noteq> []) chunks)"
    by blast
next
  assume "splitObjects objects chunkSize = Some chunks \<and>
    BulkUpsert e objects chunkSize excl w = Some (None, w')"
  then have "upsertChunks e chunks excl w = (None, w')" by (auto simp add: BulkUpsert_def)
  then show "length (executed w') = length (executed w) + length (filter (\<lambda>c. c \<noteq> []) chunks)"
    by (rule upsertChunks_count)
next
  show "BulkUpsert e [] chunkSize excl w = Some (None, w)"
    by (simp add: BulkUpsert_def splitObjects_def)
qed

theorem bulk_upsert_stops_at_first_error_witness:
  "BulkUpsert env0 [exTag, exNote, exLink, IntVal 3, exTag] 2 [] w0 =
     Some (Some NotStruct, snd (upsertObjSet env0 [exLink, IntVal 3] [] (snd (upsertChunks env0 [[exTag, exNote]] [] w0)))) \<and>
   length (executed (snd (upsertObjSet env0 [exLink, IntVal 3] [] (snd (upsertChunks env0 [[exTag, exNote]] [] w0))))) = 1 \<and>
   BulkUpsert envFail [exTag, exNote, exLink] 2 [] w0 =
     Some (Some (ExecError ''Duplicate entry''), snd (upsertObjSet envFail [exTag, exNote] [] w0)) \<and>
   length (executed (snd (upsertObjSet envFail [exTag, exNote] [] w0))) = 1 \<and>
   splitObjects [exTag, exNote, exLink] 2 = Some [[exTag, exNote], [exLink]] \<and>
   (\<exists>w'. BulkUpsert env0 [exTag, exNote, exLink] 2 [] w0 = Some (None, w') \<and>
         length (executed w') = 2) \<and>
   map_option fst (BulkUpsert env0 [exTag, exNote, exLink] 2 [] w0) = Some None"
proof -
  let ?w1 = "snd (upsertChunks env0 [[exTag, exNote]] [] w0)"
  let ?w2 = "snd (upsertObjSet env0 [exLink, IntVal 3] [] ?w1)"
  have s: "splitObjects [exTag, exNote, exLink, IntVal 3, exTag] 2 =
      Some ([[exTag, exNote]] @ [exLink, IntVal 3] # [[exTag]])"
    by (simp add: splitObjects_def groupsOf.simps)
  have p: "upsertChunks env0 [[exTag, exNote]] [] w0 = (None, ?w1)" by code_simp
  have f: "upsertObjSet env0 [exLink, IntVal 3] [] ?w1 = (Some NotStruct, ?w2)" by code_simp
  have n: "length (executed ?w2) = 1" by code_simp
  from bulk_upsert_stops_at_first_error [where objects = "[exTag, exNote, exLink, IntVal 3, exTag]"
      and chunkSize = 2 and pre = "[[exTag, exNote]]" and c = "[exLink, IntVal 3]" and post = "[[exTag]]"
      and e = env0 and excl = "[]" and w = w0 and ?w1.0 = ?w1 and err = NotStruct and ?w2.0 = ?w2] s p f
  have a: "BulkUpsert env0 [exTag, exNote, exLink, IntVal 3, exTag] 2 [] w0 = Some (Some NotStruct, ?w2)"
    by blast
  let ?v = "snd (upsertObjSet envFail [exTag, exNote] [] w0)"
  have s': "splitObjects [exTag, exNote, exLink] 2 = Some ([] @ [exTag, exNote] # [[exLink]])"
    by (simp add: splitObjects_def groupsOf.simps)
  have p': "upsertChunks envFail [] [] w0 = (None, w0)" by simp
  have f': "upsertObjSet envFail [exTag, exNote] [] w0 = (Some (ExecError ''Duplicate entry''), ?v)"
    by code_simp
  have n': "length (executed ?v) = 1" by code_simp
  from bulk_upsert_stops_at_first_error [where objects = "[exTag, exNote, exLink]"
      and chunkSize = 2 and pre = "[]" and c = "[exTag, exNote]" and post = "[[exLink]]"
      and e = envFail and excl = "[]" and w = w0 and ?w1.0 = w0 and err = "ExecError ''Duplicate entry''"
      and ?w2.0 = ?v] s' p' f'
  have b: "BulkUpsert envFail [exTag, exNote, exLink] 2 [] w0 = Some (Some (ExecError ''Duplicate entry''), ?v)"
    by blast
  let ?cs = "[[exTag, exNote], [exLink]]"
  have s'': "splitObjects [exTag, exNote, exLink] 2 = Some ?cs"
    by (simp add: splitObjects_def groupsOf.simps)
  have o0: "fst (upsertObjSet env0 (?cs ! 0) [] (snd (upsertChunks env0 (take 0 ?cs) [] w0))) = None"
    by code_simp
  have o1: "fst (upsertObjSet env0 (?cs ! 1) [] (snd (upsertChunks env0 (take 1 ?cs) [] w0))) = None"
    by code_simp
  have ok: "\<forall>i < length ?cs.
      fst (upsertObjSet env0 (?cs ! i) [] (snd (upsertChunks env0 (take i ?cs) [] w0))) = None"
  proof (intro allI impI)
    fix i assume "i < length ?cs"
    then have "i = 0 \<or> i = 1" by auto
    with o0 o1 show "fst (upsertObjSet env0 (?cs ! i) [] (snd (upsertChunks env0 (take i ?cs) [] w0))) = None"
      by blast
  qed
  from bulk_upsert_stops_at_first_error [where objects = "[exTag, exNote, exLink]"
      and chunkSize = 2 and e = env0 and excl = "[]" and w = w0 and chunks = ?cs] s'' ok
  have "\<exists>w'. BulkUpsert env0 [exTag, exNote, exLink] 2 [] w0 = Some (None, w') \<and>
      length (executed w') = length (executed w0) + length (filter (\<lambda>c. c \<noteq> []) ?cs)"
    by blast
  moreover have "length (executed w0) + length (filter (\<lambda>c. c \<noteq> []) ?cs) = 2"
    by (simp add: w0_def)
  ultimately have c: "\<exists>w'. BulkUpsert env0 [exTag, exNote, exLink] 2 [] w0 = Some (None, w') \<and>
      length (executed w') = 2" by (simp only:)
  then have d: "map_option fst (BulkUpsert env0 [exTag, exNote, exLink] 2 [] w0) = Some None" by auto
  from a n b n' s'' c d show ?thesis by blast
qed

section \<open>Records of one type\<close>

lemma descriptor_eq:
  assumes "descriptor f = descriptor g"
  shows "db_name f = db_name g \<and> extractable excl f = extractable excl g"
proof -
  have "struct_name (descriptor f) = struct_name (descriptor g)"
    "db_name (descriptor f) = db_name (descriptor g)"
    "tag_settings (descriptor f) = tag_settings (descriptor g)"
    "has_relationship (descriptor f) = has_relationship (descriptor g)"
    "is_ignored (descriptor f) = is_ignored (descriptor g)"
    using assms by simp_all
  then show ?thesis by (simp add: descriptor_def extractable_def TagSettingsGet_def)
qed

lemma attrKeys_descriptor:
  "map descriptor fs = map descriptor gs \<Longrightarrow> attrKeys excl fs ks = attrKeys excl gs ks"
proof (induction fs arbitrary: gs ks)
  case Nil
  then show ?case by simp
next
  case (Cons f fs)
  then obtain g gs' where gs: "gs = g # gs'" "descriptor f = descriptor g"
    "map descriptor fs = map descriptor gs'" by (cases gs) auto
  from descriptor_eq [OF gs(2), of excl]
  have d: "db_name f = db_name g" "extractable excl f = extractable excl g" by simp_all
  from Cons.IH [OF gs(3)] have ih: "attrKeys excl fs ks' = attrKeys excl gs' ks'" for ks' .
  have "attrKeys excl (f # fs) ks = attrKeys excl (g # gs') ks"
  proof (cases "extractable excl g")
    case True
    with d(2) have "extractable excl f" by simp
    with True show ?thesis by (simp only: attrKeys.simps if_True d(1) ih)
  next
    case False
    with d(2) have "\<not> extractable excl f" by simp
    with False show ?thesis by (simp only: attrKeys.simps if_False ih)
  qed
  with gs(1) show ?case by (simp only:)
qed

lemma sameType_keys:
  "sameType a b \<Longrightarrow> attrKeys excl (Fields a) [] = attrKeys excl (Fields b) []"
  by (rule attrKeys_descriptor) (simp add: sameType_def)

lemma list_all2_set2:
  "list_all2 P xs ys \<Longrightarrow> y \<in> set ys \<Longrightarrow> \<exists>x \<in> set xs. P x y"
  by (induction rule: list_all2_induct) auto

lemma upsertChunks_new:
  "upsertChunks e chunks excl w = (r, w') \<Longrightarrow>
   \<exists>new. executed w' = executed w @ new \<and>
     (\<forall>st \<in> set new. \<exists>c \<in> set chunks. \<exists>wa ra wb.
        upsertObjSet e c excl wa = (ra, wb) \<and> executed wb = executed wa @ [st])"
proof (induction chunks arbitrary: w)
  case Nil
  then show ?case by simp
next
  case (Cons c chunks)
  obtain r1 wa where u: "upsertObjSet e c excl w = (r1, wa)" by (cases "upsertObjSet e c excl w")
  from upsertObjSet_at_most_one [of e c excl w] u
  obtain one where one: "executed wa = executed w @ one"
    "\<forall>st \<in> set one. \<exists>wa' ra wb. upsertObjSet e c excl wa' = (ra, wb) \<and> executed wb = executed wa' @ [st]"
  proof (cases "executed wa = executed w")
    case True
    then have "executed wa = executed w @ []" by simp
    then show ?thesis using that [of "[]"] by simp
  next
    case False
    with upsertObjSet_at_most_one [of e c excl w] u obtain st where "executed wa = executed w @ [st]"
      by auto
    with u show ?thesis using that [of "[st]"] by auto
  qed
  show ?case
  proof (cases r1)
    case (Some err)
    with u Cons.prems have "w' = wa" by simp
    with one show ?thesis by auto
  next
    case None
    with u Cons.prems have "upsertChunks e chunks excl wa = (r, w')" by simp
    from Cons.IH [OF this] obtain new where new: "executed w' = executed wa @ new"
      "\<forall>st \<in> set new. \<exists>c \<in> set chunks. \<exists>wa ra wb.
        upsertObjSet e c excl wa = (ra, wb) \<and> executed wb = executed wa @ [st]" by blast
    from one(1) new(1) have "executed w' = executed w @ (one @ new)" by simp
    moreover have "\<forall>st \<in> set (one @ new). \<exists>c' \<in> set (c # chunks). \<exists>wa ra wb.
        upsertObjSet e c' excl wa = (ra, wb) \<and> executed wb = executed wa @ [st]"
      using one(2) new(2) by auto
    ultimately show ?thesis by blast
  qed
qed

lemma splitObjects_subset:
  "splitObjects objects chunkSize = Some chunks \<Longrightarrow> c \<in> set chunks \<Longrightarrow> set c \<subseteq> set objects"
  by (cases "objects = []"; cases "chunkSize \<le> 0")
     (auto simp: splitObjects_def dest: groupsOf_subset [rotated])

section \<open>The column order across the chunks of a batch\<close>

text \<open>
  Claim C1, as amended. For a batch of records of one struct type, every statement that
  \<open>BulkUpsert\<close> executes has the same column list: the column names (\<open>DBName\<close>, the keys of
  the attribute map) of the fields that pass the extraction filter, sorted
  lexicographically by column name (not by logical field name), each passed through
  \<open>ToColumnName\<close>. The bound values of a statement are those of the records of a chunk,
  record by record, each record's values in that same key order.
\<close>

theorem columns_sorted_by_column_name:
  assumes "BulkUpsert e objects chunkSize excl w = Some (r, w')"
    and "\<forall>obj \<in> set objects. sameType (hd objects) obj"
  shows "\<exists>keys new.
           sorted keys \<and> distinct keys \<and>
           set keys = db_name ` {f \<in> set (Fields (hd objects)). extractable excl f} \<and>
           executed w' = executed w @ new \<and>
           (\<forall>st \<in> set new.
              columns st = map (ToColumnName e) keys \<and>
              (\<exists>chunk as. chunk \<noteq> [] \<and> set chunk \<subseteq> set objects \<and>
                 list_all2 (attrsOf e excl) chunk as \<and>
                 (\<forall>a \<in> set as. sortedKeys a = keys) \<and>
                 sql_vars st = concat (map (\<lambda>a. map (lookup a) keys) as)))"
proof -
  let ?K = "db_name ` {f \<in> set (Fields (hd objects)). extractable excl f}"
  let ?keys = "sorted_list_of_set ?K"
  have fin: "finite ?K" by simp
  from assms(1) obtain chunks where sp: "splitObjects objects chunkSize = Some chunks"
    and uc: "upsertChunks e chunks excl w = (r, w')"
    by (auto simp: BulkUpsert_def)
  from upsertChunks_new [OF uc] obtain new where new: "executed w' = executed w @ new"
    "\<forall>st \<in> set new. \<exists>c \<in> set chunks. \<exists>wa ra wb.
        upsertObjSet e c excl wa = (ra, wb) \<and> executed wb = executed wa @ [st]" by blast
  have keys_of: "sortedKeys a = ?keys" if "obj \<in> set objects" "attrsOf e excl obj a" for obj a
  proof -
    from that(2) have "map fst a = attrKeys excl (Fields obj) []" using attrsOf_keys by blast
    moreover from that(1) assms(2) have "sameType (hd objects) obj" by blast
    then have "attrKeys excl (Fields (hd objects)) [] = attrKeys excl (Fields obj) []"
      by (rule sameType_keys)
    ultimately have "map fst a = attrKeys excl (Fields (hd objects)) []" by simp
    then show ?thesis by (rule sortedKeys_attrs)
  qed
  have "\<forall>st \<in> set new.
              columns st = map (ToColumnName e) ?keys \<and>
              (\<exists>chunk as. chunk \<noteq> [] \<and> set chunk \<subseteq> set objects \<and>
                 list_all2 (attrsOf e excl) chunk as \<and>
                 (\<forall>a \<in> set as. sortedKeys a = ?keys) \<and>
                 sql_vars st = concat (map (\<lambda>a. map (lookup a) ?keys) as))"
  proof
    fix st assume "st \<in> set new"
    with new(2) obtain c wa ra wb where c: "c \<in> set chunks"
      and run: "upsertObjSet e c excl wa = (ra, wb)" and one: "executed wb = executed wa @ [st]"
      by blast
    from splitObjects_subset [OF sp c] have sub: "set c \<subseteq> set objects" .
    from upsertObjSet_issued [OF run one] obtain firstAttrs as where
      ne: "c \<noteq> []" and fa: "attrsOf e excl (hd c) firstAttrs"
      and as: "list_all2 (attrsOf e excl) c as"
      and cols: "columns st = map (ToColumnName e) (sortedKeys firstAttrs)"
      and vars: "sql_vars st = concat (map (\<lambda>a. map (lookup a) (sortedKeys a)) as)"
      by blast
    from ne sub have "hd c \<in> set objects" by (cases c) auto
    from keys_of [OF this fa] cols have c1: "columns st = map (ToColumnName e) ?keys" by simp
    have all: "\<forall>a \<in> set as. sortedKeys a = ?keys"
    proof
      fix a assume "a \<in> set as"
      from list_all2_set2 [OF as this] obtain obj where "obj \<in> set c" "attrsOf e excl obj a" by blast
      with sub show "sortedKeys a = ?keys" using keys_of by blast
    qed
    then have "map (\<lambda>a. map (lookup a) (sortedKeys a)) as = map (\<lambda>a. map (lookup a) ?keys) as"
      by simp
    with vars have "sql_vars st = concat (map (\<lambda>a. map (lookup a) ?keys) as)" by simp
    with c1 ne sub as all
    show "columns st = map (ToColumnName e) ?keys \<and>
              (\<exists>chunk as. chunk \<noteq> [] \<and> set chunk \<subseteq> set objects \<and>
                 list_all2 (attrsOf e excl) chunk as \<and>
                 (\<forall>a \<in> set as. sortedKeys a = ?keys) \<and>
                 sql_vars st = concat (map (\<lambda>a. map (lookup a) ?keys) as))" by blast
  qed
  moreover have "sorted ?keys \<and> distinct ?keys \<and> set ?keys = ?K" using fin by simp
  ultimately show ?thesis using new(1) by blast
qed

theorem columns_sorted_by_column_name_witness:
  "(\<exists>keys new.
      sorted keys \<and> distinct keys \<and>
      set keys = db_name ` {f \<in> set (Fields (hd [exUser ''ann'' [], exUser ''bob'' ''admin'', exUser ''cy'' []])).
                            extractable [] f} \<and>
      executed (snd (upsertChunks env0 [[exUser ''ann'' [], exUser ''bob'' ''admin''], [exUser ''cy'' []]] [] w0)) =
        executed w0 @ new \<and>
      (\<forall>st \<in> set new.
         columns st = map (ToColumnName env0) keys \<and>
         (\<exists>chunk as. chunk \<noteq> [] \<and>
            set chunk \<subseteq> set [exUser ''ann'' [], exUser ''bob'' ''admin'', exUser ''cy'' []] \<and>
            list_all2 (attrsOf env0 []) chunk as \<and>
            (\<forall>a \<in> set as. sortedKeys a = keys) \<and>
            sql_vars st = concat (map (\<lambda>a. map (lookup a) keys) as)))) \<and>
   map columns (executed (snd (upsertChunks env0 [[exUser ''ann'' [], exUser ''bob'' ''admin''], [exUser ''cy'' []]] [] w0))) =
     [[''created_at'', ''email'', ''id'', ''name'', ''role''],
      [''created_at'', ''email'', ''id'', ''name'', ''role'']] \<and>
   map sql_vars (executed (snd (upsertChunks env0 [[exUser ''ann'' [], exUser ''bob'' ''admin''], [exUser ''cy'' []]] [] w0))) =
     [[VTime 1001, VString ''a@b.c'', VInt 0, VString ''ann'', VString ''guest'',
       VTime 1002, VString ''a@b.c'', VInt 0, VString ''bob'', VString ''admin''],
      [VTime 1004, VString ''a@b.c'', VInt 0, VString ''cy'', VString ''guest'']]"
proof -
  let ?objs = "[exUser ''ann'' [], exUser ''bob'' ''admin'', exUser ''cy'' []]"
  let ?X = "upsertChunks env0 [[exUser ''ann'' [], exUser ''bob'' ''admin''], [exUser ''cy'' []]] [] w0"
  have "splitObjects ?objs 2 = Some [[exUser ''ann'' [], exUser ''bob'' ''admin''], [exUser ''cy'' []]]"
    by (simp add: splitObjects_def groupsOf.simps)
  then have run: "BulkUpsert env0 ?objs 2 [] w0 = Some (fst ?X, snd ?X)"
    by (simp add: BulkUpsert_def)
  have same: "\<forall>obj \<in> set ?objs. sameType (hd ?objs) obj"
    by (simp add: sameType_def exUser_def descriptor_def exRole_def mkField_def)
  have c: "map columns (executed (snd ?X)) =
     [[''created_at'', ''email'', ''id'', ''name'', ''role''],
      [''created_at'', ''email'', ''id'', ''name'', ''role'']]" by code_simp
  have v: "map sql_vars (executed (snd ?X)) =
     [[VTime 1001, VString ''a@b.c'', VInt 0, VString ''ann'', VString ''guest'',
       VTime 1002, VString ''a@b.c'', VInt 0, VString ''bob'', VString ''admin''],
      [VTime 1004, VString ''a@b.c'', VInt 0, VString ''cy'', VString ''guest'']]" by code_simp
  from columns_sorted_by_column_name [OF run same] c v show ?thesis by blast
qed

text \<open>
  Claim C1 as stated fails: for a record with the fields \<open>URL\<close> and \<open>Uid\<close> the order by
  logical field name is \<open>URL\<close>, \<open>Uid\<close> (columns \<open>url\<close>, \<open>uid\<close>), and the statement has the
  columns \<open>uid\<close>, \<open>url\<close>.
\<close>

theorem columns_order_counterexample:
  "BulkUpsert env0 [exLink] 10 [] w0 =
     Some (None,
       \<lparr>clock_reads = 0,
        executed =
          [\<lparr>table_name = ''`links`'', columns = [''uid'', ''url''], placeholders = [''(?, ?)''],
            duplicates = [''`url`=VALUES(`url`)'', ''`uid`=VALUES(`uid`)''],
            sql_text = ''INSERT INTO `links` (`uid`, `url`) VALUES (?, ?) ON DUPLICATE KEY UPDATE `url`=VALUES(`url`), `uid`=VALUES(`uid`)'',
            sql_vars = [VInt 7, VString ''http://a'']\<rparr>]\<rparr>) \<and>
   specOrderedColumns env0 [] (Fields exLink) = [''url'', ''uid''] \<and>
   [''uid'', ''url''] \<noteq> [''url'', ''uid'']"
proof -
  have "BulkUpsert env0 [exLink] 10 [] w0 =
     Some (None,
       \<lparr>clock_reads = 0,
        executed =
          [\<lparr>table_name = ''`links`'', columns = [''uid'', ''url''], placeholders = [''(?, ?)''],
            duplicates = [''`url`=VALUES(`url`)'', ''`uid`=VALUES(`uid`)''],
            sql_text = ''INSERT INTO `links` (`uid`, `url`) VALUES (?, ?) ON DUPLICATE KEY UPDATE `url`=VALUES(`url`), `uid`=VALUES(`uid`)'',
            sql_vars = [VInt 7, VString ''http://a'']\<rparr>]\<rparr>)"
    by code_simp
  moreover have "specOrderedColumns env0 [] (Fields exLink) = [''url'', ''uid'']" by code_simp
  moreover have "[''uid'', ''url''] \<noteq> [''url'', ''uid'']" by simp
  ultimately show ?thesis by blast
qed

section \<open>Default values\<close>

text \<open>
  Claim C5. For a struct record, \<open>extractMapValue\<close> returns an attribute map, and a field
  that passes the extraction filter and is not a timestamp field is a key of it (by its
  column name): when the field declares a default value and is blank, its bound value is
  the \<open>DEFAULT\<close> literal if the tag has one and the field's present value otherwise; when
  it is not blank (or declares no default), its bound value is the caller's value. The
  field is the only extracted one with its column name.
\<close>

theorem default_or_current_value:
  assumes "Kind obj = KStruct"
    and "f \<in> set (Fields obj)" and "extractable excl f"
    and "\<not> (struct_name f = ''CreatedAt'' \<or> struct_name f = ''UpdatedAt'')"
    and "\<forall>g \<in> set (Fields obj). extractable excl g \<and> db_name g = db_name f \<longrightarrow> g = f"
  shows "\<exists>attrs w'. extractMapValue e obj excl w = (Inr attrs, w') \<and>
           db_name f \<in> set (sortedKeys attrs) \<and>
           (has_default_value f \<and> is_blank f \<longrightarrow>
              (\<forall>val. TagSettingsGet f ''DEFAULT'' = Some val \<longrightarrow>
                     map_of attrs (db_name f) = Some (VString val)) \<and>
              (TagSettingsGet f ''DEFAULT'' = None \<longrightarrow>
                     map_of attrs (db_name f) = Some (field_value f))) \<and>
           (\<not> is_blank f \<longrightarrow> map_of attrs (db_name f) = Some (field_value f)) \<and>
           (\<not> has_default_value f \<longrightarrow> map_of attrs (db_name f) = Some (field_value f))"
proof -
  let ?v = "if has_default_value f \<and> is_blank f
      then (case TagSettingsGet f ''DEFAULT'' of Some val \<Rightarrow> VString val | None \<Rightarrow> field_value f)
      else field_value f"
  from extractMapValue_struct [OF assms(1), of e excl w]
  obtain attrs w' where ex: "extractMapValue e obj excl w = (Inr attrs, w')" by blast
  with assms(1) have ef: "extractFields e excl (Fields obj) [] w = (attrs, w')"
    by (auto simp: extractMapValue_def split: prod.splits)
  from ex have ao: "attrsOf e excl obj attrs" by (auto simp: attrsOf_def)
  from attrsOf_key_present [OF ao assms(2,3)] have key: "db_name f \<in> set (sortedKeys attrs)" .
  have fv: "\<forall>w. fst (attrValue e f w) = ?v"
    using attrValue_plain [OF assms(4), of e] by simp
  with assms(5) have "\<forall>g \<in> set (Fields obj). extractable excl g \<and> db_name g = db_name f \<longrightarrow>
      (\<forall>w. fst (attrValue e g w) = ?v)" by blast
  moreover from assms(2,3) have "(\<exists>g \<in> set (Fields obj). extractable excl g \<and> db_name g = db_name f) \<or>
      map_of [] (db_name f) = Some ?v" by blast
  ultimately have "map_of (fst (extractFields e excl (Fields obj) [] w)) (db_name f) = Some ?v"
    by (rule extractFields_last_value)
  with ef have "map_of attrs (db_name f) = Some ?v" by simp
  then have p: "(has_default_value f \<and> is_blank f \<longrightarrow>
              (\<forall>val. TagSettingsGet f ''DEFAULT'' = Some val \<longrightarrow>
                     map_of attrs (db_name f) = Some (VString val)) \<and>
              (TagSettingsGet f ''DEFAULT'' = None \<longrightarrow>
                     map_of attrs (db_name f) = Some (field_value f))) \<and>
           (\<not> is_blank f \<longrightarrow> map_of attrs (db_name f) = Some (field_value f)) \<and>
           (\<not> has_default_value f \<longrightarrow> map_of attrs (db_name f) = Some (field_value f))"
    by (simp split: option.splits)
  show ?thesis
    by (rule exI [of _ attrs], rule exI [of _ w']) (rule conjI [OF ex conjI [OF key p]])
qed

theorem default_or_current_value_witness:
  "is_blank (exRole []) \<and> \<not> is_blank (exRole ''admin'') \<and>
   extractMapValue env0 (exUser ''ann'' []) [] w0 =
     (Inr [(''id'', VInt 0), (''email'', VString ''a@b.c''), (''name'', VString ''ann''),
           (''role'', VString ''guest''), (''created_at'', VTime 1000)],
      \<lparr>clock_reads = 1, executed = []\<rparr>) \<and>
   extractMapValue env0 (exUser ''bob'' ''admin'') [] w0 =
     (Inr [(''id'', VInt 0), (''email'', VString ''a@b.c''), (''name'', VString ''bob''),
           (''role'', VString ''admin''), (''created_at'', VTime 1000)],
      \<lparr>clock_reads = 1, executed = []\<rparr>) \<and>
   (\<exists>attrs w'. extractMapValue env0 (exUser ''ann'' []) [] w0 = (Inr attrs, w') \<and>
      ''role'' \<in> set (sortedKeys attrs) \<and> map_of attrs ''role'' = Some (VString ''guest'')) \<and>
   (\<exists>attrs w'. extractMapValue env0 (exUser ''bob'' ''admin'') [] w0 = (Inr attrs, w') \<and>
      ''role'' \<in> set (sortedKeys attrs) \<and> map_of attrs ''role'' = Some (VString ''admin'')) \<and>
   map sql_vars (executed (snd (upsertObjSet env0 [exUser ''ann'' [], exUser ''bob'' ''admin''] [] w0))) =
     [[VTime 1001, VString ''a@b.c'', VInt 0, VString ''ann'', VString ''guest'',
       VTime 1002, VString ''a@b.c'', VInt 0, VString ''bob'', VString ''admin'']]"
proof -
  have ex1: "extractMapValue env0 (exUser ''ann'' []) [] w0 =
     (Inr [(''id'', VInt 0), (''email'', VString ''a@b.c''), (''name'', VString ''ann''),
           (''role'', VString ''guest''), (''created_at'', VTime 1000)],
      \<lparr>clock_reads = 1, executed = []\<rparr>)"
    by code_simp
  have ex2: "extractMapValue env0 (exUser ''bob'' ''admin'') [] w0 =
     (Inr [(''id'', VInt 0), (''email'', VString ''a@b.c''), (''name'', VString ''bob''),
           (''role'', VString ''admin''), (''created_at'', VTime 1000)],
      \<lparr>clock_reads = 1, executed = []\<rparr>)"
    by code_simp
  have sv: "map sql_vars (executed (snd (upsertObjSet env0 [exUser ''ann'' [], exUser ''bob'' ''admin''] [] w0))) =
     [[VTime 1001, VString ''a@b.c'', VInt 0, VString ''ann'', VString ''guest'',
       VTime 1002, VString ''a@b.c'', VInt 0, VString ''bob'', VString ''admin'']]"
    by code_simp
  have k: "Kind (exUser n r) = KStruct" for n r by (simp add: exUser_def)
  have m: "exRole r \<in> set (Fields (exUser n r))" for n r by (simp add: exUser_def)
  have x: "extractable [] (exRole r)" for r
    by (simp add: extractable_def containString_def TagSettingsGet_def exRole_def mkField_def)
  have n: "\<not> (struct_name (exRole r) = ''CreatedAt'' \<or> struct_name (exRole r) = ''UpdatedAt'')" for r
    by (simp add: exRole_def mkField_def)
  have u: "\<forall>g \<in> set (Fields (exUser n r)). extractable [] g \<and> db_name g = db_name (exRole r) \<longrightarrow> g = exRole r"
    for n r
    by (simp add: exUser_def exID_def exEmail_def exRole_def exCreatedAt_def mkField_def)
  have blank: "has_default_value (exRole []) \<and> is_blank (exRole []) \<and>
      TagSettingsGet (exRole []) ''DEFAULT'' = Some ''guest'' \<and> db_name (exRole []) = ''role''"
    by (simp add: exRole_def mkField_def TagSettingsGet_def)
  have nonblank: "\<not> is_blank (exRole ''admin'') \<and> field_value (exRole ''admin'') = VString ''admin'' \<and>
      db_name (exRole ''admin'') = ''role''"
    by (simp add: exRole_def mkField_def)
  from default_or_current_value [where e = env0 and w = w0 and obj = "exUser ''ann'' []"
      and f = "exRole []" and excl = "[]", OF k m x n u] blank
  have a: "\<exists>attrs w'. extractMapValue env0 (exUser ''ann'' []) [] w0 = (Inr attrs, w') \<and>
      ''role'' \<in> set (sortedKeys attrs) \<and> map_of attrs ''role'' = Some (VString ''guest'')"
    by auto
  from default_or_current_value [where e = env0 and w = w0 and obj = "exUser ''bob'' ''admin''"
      and f = "exRole ''admin''" and excl = "[]", OF k m x n u] nonblank
  have b: "\<exists>attrs w'. extractMapValue env0 (exUser ''bob'' ''admin'') [] w0 = (Inr attrs, w') \<and>
      ''role'' \<in> set (sortedKeys attrs) \<and> map_of attrs ''role'' = Some (VString ''admin'')"
    by auto
  from blank nonblank ex1 ex2 a b sv show ?thesis by blast
qed

end
